theory Spec2Isabelle
  imports Complex_Main "HOL-Library.Sublist"
begin

section \<open>Gatekeeper API: authentication verdicts and the ticket lifecycle\<close>

text \<open>
  A shallow embedding of \<^verbatim>\<open>src/app/main.py\<close>: the function
  \<^verbatim>\<open>auth_verdict_from_headers\<close> with the compiled pattern \<^verbatim>\<open>_RESULT_RE\<close>,
  and the endpoints \<^verbatim>\<open>create_ticket\<close>, \<^verbatim>\<open>get_ticket\<close> and
  \<^verbatim>\<open>list_tickets\<close> over the SQLite table \<^verbatim>\<open>tickets\<close>.
\<close>

subsection \<open>Characters and the string methods used by the source\<close>

text \<open>
  A Python \<^verbatim>\<open>str\<close> is a sequence of code points. The characters here are the
  code points U+0000 to U+00FF and seven code points beyond them: the four letters
  U+0130, U+0131, U+017F and U+212A, which are the only characters outside ASCII that
  the literals and the class \<^verbatim>\<open>[a-zA-Z]\<close> of the source's pattern match under
  \<^verbatim>\<open>re.IGNORECASE\<close>; the combining dot U+0307, which \<^verbatim>\<open>str.lower\<close> makes of
  U+0130; and U+2028 and U+2029, the only line boundaries of \<^verbatim>\<open>str.splitlines\<close>
  beyond U+00FF. The character classes, the case mapping and the line boundaries below
  are those of Python 3 on these code points.
\<close>

datatype pychar =
    Latin char
  | Capital_I_dot
  | Dotless_i
  | Long_s
  | Kelvin
  | Dot_above
  | Line_sep
  | Par_sep

type_synonym pystr = "pychar list"

text \<open>A string literal of the source.\<close>

definition str :: "string \<Rightarrow> pystr" where
  "str s = map Latin s"

text \<open>The code point that a character stands for.\<close>

fun code_point :: "pychar \<Rightarrow> nat" where
  "code_point (Latin a) = of_char a"
| "code_point Capital_I_dot = 0x130"
| "code_point Dotless_i = 0x131"
| "code_point Long_s = 0x17F"
| "code_point Kelvin = 0x212A"
| "code_point Dot_above = 0x307"
| "code_point Line_sep = 0x2028"
| "code_point Par_sep = 0x2029"

text \<open>The tables for the code points below U+0100.\<close>

definition in_range :: "nat \<Rightarrow> nat \<Rightarrow> char \<Rightarrow> bool" where
  "in_range lo hi a = (lo \<le> of_char a \<and> of_char a \<le> hi)"

definition is_upper_latin :: "char \<Rightarrow> bool" where
  "is_upper_latin a =
     (in_range 0x41 0x5A a \<or> (in_range 0xC0 0xDE a \<and> (of_char a :: nat) \<noteq> 0xD7))"

definition lower_latin :: "char \<Rightarrow> char" where
  "lower_latin a = (if is_upper_latin a then char_of ((of_char a :: nat) + 32) else a)"

definition is_space_latin :: "char \<Rightarrow> bool" where
  "is_space_latin a =
     (in_range 0x09 0x0D a \<or> in_range 0x1C 0x20 a \<or> (of_char a :: nat) = 0x85
      \<or> (of_char a :: nat) = 0xA0)"

definition is_word_latin :: "char \<Rightarrow> bool" where
  "is_word_latin a =
     (in_range 0x30 0x39 a \<or> in_range 0x41 0x5A a \<or> in_range 0x61 0x7A a
      \<or> (of_char a :: nat) = 0x5F
      \<or> (of_char a :: nat) = 0xAA \<or> (of_char a :: nat) = 0xB2 \<or> (of_char a :: nat) = 0xB3
      \<or> (of_char a :: nat) = 0xB5 \<or> (of_char a :: nat) = 0xB9 \<or> (of_char a :: nat) = 0xBA
      \<or> in_range 0xBC 0xBE a \<or> in_range 0xC0 0xD6 a \<or> in_range 0xD8 0xF6 a
      \<or> in_range 0xF8 0xFF a)"

definition is_linebreak_latin :: "char \<Rightarrow> bool" where
  "is_linebreak_latin a =
     (in_range 0x0A 0x0D a \<or> in_range 0x1C 0x1E a \<or> (of_char a :: nat) = 0x85)"

text \<open>ASCII letters.\<close>

fun is_ascii_upper :: "pychar \<Rightarrow> bool" where
  "is_ascii_upper (Latin a) = in_range 0x41 0x5A a"
| "is_ascii_upper c = False"

fun is_ascii_lower :: "pychar \<Rightarrow> bool" where
  "is_ascii_lower (Latin a) = in_range 0x61 0x7A a"
| "is_ascii_lower c = False"

definition is_ascii_letter :: "pychar \<Rightarrow> bool" where
  "is_ascii_letter c = (is_ascii_upper c \<or> is_ascii_lower c)"

text \<open>\<^verbatim>\<open>str.lower\<close>, one character at a time. Below U+0100 the capital letters
  are A to Z and U+00C0 to U+00DE without the multiplication sign U+00D7, and the small
  letter is 32 code points higher. U+0130 becomes the letter i followed by U+0307, the
  Kelvin sign U+212A becomes the letter k, and every other character is left as it is.\<close>

fun lower_char :: "pychar \<Rightarrow> pystr" where
  "lower_char (Latin a) = [Latin (lower_latin a)]"
| "lower_char Capital_I_dot = [Latin CHR ''i'', Dot_above]"
| "lower_char Kelvin = [Latin CHR ''k'']"
| "lower_char c = [c]"

definition lower :: "pystr \<Rightarrow> pystr" where
  "lower s = concat (map lower_char s)"

text \<open>\<^verbatim>\<open>\s\<close> of the \<^verbatim>\<open>re\<close> module on \<^verbatim>\<open>str\<close> patterns: the two line
  boundaries beyond U+00FF are whitespace, the letters and the combining dot are not.\<close>

fun is_space :: "pychar \<Rightarrow> bool" where
  "is_space (Latin a) = is_space_latin a"
| "is_space Line_sep = True"
| "is_space Par_sep = True"
| "is_space c = False"

text \<open>\<^verbatim>\<open>\w\<close> of the \<^verbatim>\<open>re\<close> module on \<^verbatim>\<open>str\<close> patterns: alphanumeric
  characters and the underscore. The four letters beyond U+00FF are alphanumeric, the
  combining dot and the two line boundaries are not.\<close>

fun is_word :: "pychar \<Rightarrow> bool" where
  "is_word (Latin a) = is_word_latin a"
| "is_word Capital_I_dot = True"
| "is_word Dotless_i = True"
| "is_word Long_s = True"
| "is_word Kelvin = True"
| "is_word c = False"

text \<open>The line boundaries of \<^verbatim>\<open>str.splitlines\<close>.\<close>

fun is_linebreak :: "pychar \<Rightarrow> bool" where
  "is_linebreak (Latin a) = is_linebreak_latin a"
| "is_linebreak Line_sep = True"
| "is_linebreak Par_sep = True"
| "is_linebreak c = False"

text \<open>\<^verbatim>\<open>str.splitlines()\<close>: the text is cut after every line boundary, a carriage
  return directly followed by a line feed counts as one boundary, the boundaries are
  dropped, and a last line is produced only when it is not empty.\<close>

fun splitlines_from :: "pystr \<Rightarrow> pystr \<Rightarrow> pystr list" where
  "splitlines_from cur [] = (if cur = [] then [] else [cur])"
| "splitlines_from cur (c # cs) =
     (if is_linebreak c then
        (case cs of
           [] \<Rightarrow> [cur]
         | d # ds \<Rightarrow>
             if c = Latin (CHR 0x0D) \<and> d = Latin (CHR 0x0A) then cur # splitlines_from [] ds
             else cur # splitlines_from [] cs)
      else splitlines_from (cur @ [c]) cs)"

definition splitlines :: "pystr \<Rightarrow> pystr list" where
  "splitlines s = splitlines_from [] s"

definition startswith :: "pystr \<Rightarrow> pystr \<Rightarrow> bool" where
  "startswith s p = prefix p s"

subsection \<open>Header Scanner: the first loop of \<^verbatim>\<open>auth_verdict_from_headers\<close>\<close>

text \<open>
  \<^verbatim>\<open>
  lines = []
  for line in raw_headers.splitlines():
      if line.lower().startswith("authentication-results"):
          lines.append(line)
      elif line.lower().startswith("authentication-results-original"):
          lines.append(line)
  \<close>
\<close>

definition collect_step :: "pystr list \<Rightarrow> pystr \<Rightarrow> pystr list" where
  "collect_step lines line =
     (if startswith (lower line) (str ''authentication-results'') then lines @ [line]
      else if startswith (lower line) (str ''authentication-results-original'')
        then lines @ [line]
      else lines)"

definition collect_lines :: "pystr \<Rightarrow> pystr list" where
  "collect_lines raw_headers = foldl collect_step [] (splitlines raw_headers)"

subsection \<open>The pattern language of \<^verbatim>\<open>_RESULT_RE\<close> and a backtracking matcher\<close>

text \<open>
  The constructs of \<^verbatim>\<open>re\<close> that the source's pattern uses: the word boundary
  \<^verbatim>\<open>\b\<close>, literal text, the greedy repetitions \<^verbatim>\<open>*\<close> and \<^verbatim>\<open>+\<close> of
  a character class (\<^verbatim>\<open>\s\<close> and \<^verbatim>\<open>[a-zA-Z]\<close>), alternation, sequence and
  numbered capturing groups. The literal text of a pattern is written in characters
  below U+0100.
\<close>

datatype cclass = Whitespace | Letters

datatype regex =
    Boundary
  | Lit string
  | Star cclass
  | Plus cclass
  | Alt regex regex
  | Cat regex regex
  | Group nat regex

type_synonym captures = "(nat \<times> pystr) list"

text \<open>The state of a match attempt: the character before the current position (none
  at the start of the subject), the rest of the subject, and the groups captured so far.\<close>

type_synonym mstate = "pychar option \<times> pystr \<times> captures"

text \<open>With \<^verbatim>\<open>re.IGNORECASE\<close> a character of the subject matches a literal
  character when the two are equal up to case. For a subject character below U+0100
  that is equality of the lowercase forms; beyond, U+017F (long s) matches the letter
  s, U+212A (Kelvin sign) the letter k, and U+0130 and U+0131 (dotted capital I and
  dotless i) the letter i. \<open>ignorecase_key\<close> is the lowercase character that a
  subject character stands for.\<close>

fun ignorecase_key :: "pychar \<Rightarrow> char option" where
  "ignorecase_key (Latin a) = Some (lower_latin a)"
| "ignorecase_key Long_s = Some CHR ''s''"
| "ignorecase_key Kelvin = Some CHR ''k''"
| "ignorecase_key Capital_I_dot = Some CHR ''i''"
| "ignorecase_key Dotless_i = Some CHR ''i''"
| "ignorecase_key c = None"

definition char_matches :: "bool \<Rightarrow> char \<Rightarrow> pychar \<Rightarrow> bool" where
  "char_matches ignorecase l c =
     (if ignorecase then ignorecase_key c = Some (lower_latin l) else c = Latin l)"

text \<open>With \<^verbatim>\<open>re.IGNORECASE\<close> the class \<^verbatim>\<open>[a-zA-Z]\<close> holds, besides the ASCII
  letters, the four letters U+0130, U+0131, U+017F and U+212A.\<close>

fun in_class :: "bool \<Rightarrow> cclass \<Rightarrow> pychar \<Rightarrow> bool" where
  "in_class ignorecase Whitespace c = is_space c"
| "in_class ignorecase Letters c =
     (is_ascii_letter c
      \<or> (ignorecase \<and> c \<in> {Capital_I_dot, Dotless_i, Long_s, Kelvin}))"

definition word_before :: "pychar option \<Rightarrow> bool" where
  "word_before p = (case p of None \<Rightarrow> False | Some c \<Rightarrow> is_word c)"

definition word_after :: "pystr \<Rightarrow> bool" where
  "word_after s = (case s of [] \<Rightarrow> False | c # _ \<Rightarrow> is_word c)"

fun lit_match :: "bool \<Rightarrow> string \<Rightarrow> pychar option \<Rightarrow> pystr \<Rightarrow> (pychar option \<times> pystr) option" where
  "lit_match ic [] p s = Some (p, s)"
| "lit_match ic (l # ls) p [] = None"
| "lit_match ic (l # ls) p (c # cs) =
     (if char_matches ic l c then lit_match ic ls (Some c) cs else None)"

text \<open>A greedy repetition takes the longest run first and gives characters back, one at
  a time, while the rest of the pattern (the continuation \<open>k\<close>) fails.\<close>

fun star_loop :: "bool \<Rightarrow> cclass \<Rightarrow> (mstate \<Rightarrow> mstate option) \<Rightarrow> pychar option \<Rightarrow> captures
    \<Rightarrow> pystr \<Rightarrow> mstate option" where
  "star_loop ic cl k p g [] = k (p, [], g)"
| "star_loop ic cl k p g (c # cs) =
     (if in_class ic cl c then
        (case star_loop ic cl k (Some c) g cs of
           Some r \<Rightarrow> Some r
         | None \<Rightarrow> k (p, c # cs, g))
      else k (p, c # cs, g))"

fun rmatch :: "bool \<Rightarrow> regex \<Rightarrow> mstate \<Rightarrow> (mstate \<Rightarrow> mstate option) \<Rightarrow> mstate option" where
  "rmatch ic Boundary (p, s, g) k =
     (if word_before p \<noteq> word_after s then k (p, s, g) else None)"
| "rmatch ic (Lit l) (p, s, g) k =
     (case lit_match ic l p s of None \<Rightarrow> None | Some (p', s') \<Rightarrow> k (p', s', g))"
| "rmatch ic (Star cl) (p, s, g) k = star_loop ic cl k p g s"
| "rmatch ic (Plus cl) (p, s, g) k =
     (case s of
        [] \<Rightarrow> None
      | c # cs \<Rightarrow> if in_class ic cl c then star_loop ic cl k (Some c) g cs else None)"
| "rmatch ic (Alt a b) st k =
     (case rmatch ic a st k of Some r \<Rightarrow> Some r | None \<Rightarrow> rmatch ic b st k)"
| "rmatch ic (Cat a b) st k = rmatch ic a st (\<lambda>st'. rmatch ic b st' k)"
| "rmatch ic (Group n r) (p, s, g) k =
     rmatch ic r (p, s, g)
       (\<lambda>(p', s', g'). k (p', s', (n, take (length s - length s') s) # g'))"

text \<open>\<^verbatim>\<open>pattern.finditer(s)\<close>: the matches from left to right, none overlapping
  another; the search goes on where the last match ended. A match object is modelled by
  its captured groups, latest first. The pattern of the source never matches the empty
  string (lemma \<open>result_re_consumes\<close> below), so the branch for an empty match, which only
  steps one character ahead, is never taken for it.\<close>

function finditer_from :: "bool \<Rightarrow> regex \<Rightarrow> pychar option \<Rightarrow> pystr \<Rightarrow> captures list" where
  "finditer_from ic r p s =
     (case rmatch ic r (p, s, []) Some of
        Some (p', s', g) \<Rightarrow>
          if length s' < length s then g # finditer_from ic r p' s'
          else (case s of [] \<Rightarrow> [g] | c # cs \<Rightarrow> g # finditer_from ic r (Some c) cs)
      | None \<Rightarrow> (case s of [] \<Rightarrow> [] | c # cs \<Rightarrow> finditer_from ic r (Some c) cs))"
  by pat_completeness auto
termination
  by (relation "measure (\<lambda>(ic, r, p, s). length s)") auto

text \<open>A compiled pattern: the \<^verbatim>\<open>IGNORECASE\<close> flag and the expression.\<close>

type_synonym pattern = "bool \<times> regex"

definition finditer :: "pattern \<Rightarrow> pystr \<Rightarrow> captures list" where
  "finditer pat s = finditer_from (fst pat) (snd pat) None s"

definition group :: "captures \<Rightarrow> nat \<Rightarrow> pystr option" where
  "group m n = map_of m n"

text \<open>
  \<^verbatim>\<open>_RESULT_RE = re.compile(r'\b(spf|dkim|dmarc)\s*=\s*([a-zA-Z]+)', re.IGNORECASE)\<close>
\<close>

definition RESULT_RE :: pattern where
  "RESULT_RE =
     (True,
      Cat Boundary
       (Cat (Group 1 (Alt (Lit ''spf'') (Alt (Lit ''dkim'') (Lit ''dmarc''))))
         (Cat (Star Whitespace)
           (Cat (Lit ''='')
             (Cat (Star Whitespace)
               (Group 2 (Plus Letters)))))))"

definition GOOD_VALUE :: pystr where
  "GOOD_VALUE = str ''pass''"

subsection \<open>Signal Extractor: the second loop of \<^verbatim>\<open>auth_verdict_from_headers\<close>\<close>

text \<open>
  \<^verbatim>\<open>
  found = {}
  for l in lines:
      for m in _RESULT_RE.finditer(l):
          k = m.group(1).lower()
          v = m.group(2).lower()
          # keep the first seen explicit result for each key
          found.setdefault(k, v)
  \<close>
  \<^verbatim>\<open>m.group(n)\<close> is \<^verbatim>\<open>None\<close> only for a group that took no part in the match.
  Both groups of the pattern take part in each of its matches (lemma
  \<open>result_re_groups\<close> below), so the last case of \<open>found_step\<close> is never reached.
\<close>

definition setdefault :: "('k \<rightharpoonup> 'v) \<Rightarrow> 'k \<Rightarrow> 'v \<Rightarrow> ('k \<rightharpoonup> 'v)" where
  "setdefault d k v = (case d k of None \<Rightarrow> d(k \<mapsto> v) | Some _ \<Rightarrow> d)"

definition found_step :: "(pystr \<rightharpoonup> pystr) \<Rightarrow> captures \<Rightarrow> (pystr \<rightharpoonup> pystr)" where
  "found_step found m =
     (case (group m 1, group m 2) of
        (Some g1, Some g2) \<Rightarrow> setdefault found (lower g1) (lower g2)
      | _ \<Rightarrow> found)"

definition collect_found :: "pystr list \<Rightarrow> (pystr \<rightharpoonup> pystr)" where
  "collect_found lines =
     foldl (\<lambda>found l. foldl found_step found (finditer RESULT_RE l)) Map.empty lines"

subsection \<open>Verdict Resolver: the end of \<^verbatim>\<open>auth_verdict_from_headers\<close>\<close>

text \<open>
  \<^verbatim>\<open>
  spf = found.get("spf"); dkim = found.get("dkim"); dmarc = found.get("dmarc")
  present = [x for x in (spf, dkim, dmarc) if x is not None]
  if not present:
      overall = "unknown"
  else:
      if any(v != GOOD_VALUE for v in present):
          overall = "fail"
      else:
          overall = "pass" if (spf == dkim == dmarc == "pass") else "fail"
  return {"spf": spf, "dkim": dkim, "dmarc": dmarc, "overall": overall}
  \<close>
\<close>

record verdict =
  spf :: "pystr option"
  dkim :: "pystr option"
  dmarc :: "pystr option"
  overall :: pystr

definition derive_overall :: "pystr option \<Rightarrow> pystr option \<Rightarrow> pystr option \<Rightarrow> pystr" where
  "derive_overall spf_v dkim_v dmarc_v =
     (let present = List.map_filter (\<lambda>x. x) [spf_v, dkim_v, dmarc_v] in
      if present = [] then str ''unknown''
      else if list_ex (\<lambda>v. v \<noteq> GOOD_VALUE) present then str ''fail''
      else if spf_v = dkim_v \<and> dkim_v = dmarc_v \<and> dmarc_v = Some (str ''pass'') then str ''pass''
      else str ''fail'')"

definition resolve_verdict :: "(pystr \<rightharpoonup> pystr) \<Rightarrow> verdict" where
  "resolve_verdict found =
     (let spf_v = found (str ''spf''); dkim_v = found (str ''dkim'');
          dmarc_v = found (str ''dmarc'') in
      \<lparr>spf = spf_v, dkim = dkim_v, dmarc = dmarc_v,
       overall = derive_overall spf_v dkim_v dmarc_v\<rparr>)"

definition auth_verdict_from_headers :: "pystr \<Rightarrow> verdict" where
  "auth_verdict_from_headers raw_headers =
     resolve_verdict (collect_found (collect_lines raw_headers))"

subsection \<open>The signals a scan visits\<close>

text \<open>The pair \<open>(k, v)\<close> that the loop body computes from one match object, and the
  pairs of all matches of the candidate lines in the order the two loops visit them.\<close>

definition signal_of :: "captures \<Rightarrow> (pystr \<times> pystr) option" where
  "signal_of m =
     (case (group m 1, group m 2) of
        (Some g1, Some g2) \<Rightarrow> Some (lower g1, lower g2)
      | _ \<Rightarrow> None)"

definition line_signals :: "pystr \<Rightarrow> (pystr \<times> pystr) list" where
  "line_signals l = List.map_filter signal_of (finditer RESULT_RE l)"

definition signals :: "pystr list \<Rightarrow> (pystr \<times> pystr) list" where
  "signals lines = concat (map line_signals lines)"

subsection \<open>The table \<^verbatim>\<open>tickets\<close>, the analyzer and the effects of a request\<close>

text \<open>\<^verbatim>\<open>sep.join(xs)\<close> and \<^verbatim>\<open>s.split(sep)\<close> for a separator of one character.\<close>

fun join :: "pystr \<Rightarrow> pystr list \<Rightarrow> pystr" where
  "join sep [] = []"
| "join sep [x] = x"
| "join sep (x # y # ys) = x @ sep @ join sep (y # ys)"

fun split_from :: "pychar \<Rightarrow> pystr \<Rightarrow> pystr \<Rightarrow> pystr list" where
  "split_from sep cur [] = [cur]"
| "split_from sep cur (c # cs) =
     (if c = sep then cur # split_from sep [] cs else split_from sep (cur @ [c]) cs)"

definition split_on :: "pychar \<Rightarrow> pystr \<Rightarrow> pystr list" where
  "split_on sep s = split_from sep [] s"

text \<open>The values that \<^verbatim>\<open>json.dumps\<close> is given: strings, \<^verbatim>\<open>None\<close> and
  dictionaries in insertion order. The column \<^verbatim>\<open>analyzer_result\<close> holds the text
  \<^verbatim>\<open>json.dumps(analysis)\<close> and \<^verbatim>\<open>get_ticket\<close> reads it back with
  \<^verbatim>\<open>json.loads\<close>; the model keeps the value itself in the column.\<close>

datatype json = JNull | JString pystr | JObject "(pystr \<times> json) list"

text \<open>\<^verbatim>\<open>d[k] = v\<close> on a dictionary: an existing key keeps its place, a new key goes
  to the end.\<close>

fun dict_set :: "(pystr \<times> json) list \<Rightarrow> pystr \<Rightarrow> json \<Rightarrow> (pystr \<times> json) list" where
  "dict_set [] k v = [(k, v)]"
| "dict_set ((k', v') # d) k v = (if k' = k then (k, v) # d else (k', v') # dict_set d k v)"

definition json_of_optional :: "pystr option \<Rightarrow> json" where
  "json_of_optional x = (case x of None \<Rightarrow> JNull | Some s \<Rightarrow> JString s)"

definition json_of_verdict :: "verdict \<Rightarrow> json" where
  "json_of_verdict v =
     JObject [(str ''spf'', json_of_optional (spf v)), (str ''dkim'', json_of_optional (dkim v)),
              (str ''dmarc'', json_of_optional (dmarc v)), (str ''overall'', JString (overall v))]"

text \<open>\<^verbatim>\<open>class TicketIn\<close> and \<^verbatim>\<open>class TicketOut\<close>.\<close>

record ticket_in =
  reporter :: pystr
  title :: pystr
  body :: pystr
  urls :: "pystr list option"
  headers :: pystr

record ticket_out =
  ticket_id :: int
  status :: pystr

text \<open>A row of the table \<^verbatim>\<open>tickets\<close>, with the columns of the
  \<^verbatim>\<open>CREATE TABLE\<close> statement.\<close>

record row =
  col_id :: int
  col_ts :: real
  col_reporter :: pystr
  col_title :: pystr
  col_body :: pystr
  col_urls :: pystr
  col_headers :: pystr
  col_analyzer_status :: pystr
  col_analyzer_result :: "json option"

text \<open>What a request does to the world outside: the SQL statements it executes, the
  commits, and the calls \<^verbatim>\<open>client.post(ANALYZER_FORM_URL, data={"headers": ...})\<close>,
  each with its arguments.\<close>

datatype effect =
    Sql_insert row
  | Sql_update int pystr "json option"
  | Sql_commit
  | Http_post pystr

text \<open>The state: the rows of the table in the order of their insertion, the largest
  row id handed out so far (the table's entry in \<^verbatim>\<open>sqlite_sequence\<close>, kept for an
  \<^verbatim>\<open>AUTOINCREMENT\<close> key), and the effects performed so far, oldest first.\<close>

record world =
  rows :: "row list"
  sequence :: int
  performed :: "effect list"

text \<open>An \<^verbatim>\<open>AUTOINCREMENT\<close> key is one more than the largest row id that the table
  has ever held.\<close>

definition next_rowid :: "world \<Rightarrow> int" where
  "next_rowid w = max (sequence w) (fold max (map col_id (rows w)) 0) + 1"

text \<open>\<^verbatim>\<open>cur.execute("INSERT INTO tickets (ts, ..., analyzer_result) VALUES (?,...)", ...)\<close>
  followed by \<^verbatim>\<open>cur.lastrowid\<close>.\<close>

definition execute_insert ::
  "real \<Rightarrow> pystr \<Rightarrow> pystr \<Rightarrow> pystr \<Rightarrow> pystr \<Rightarrow> pystr \<Rightarrow> pystr \<Rightarrow> json option
     \<Rightarrow> world \<Rightarrow> world \<times> int" where
  "execute_insert ts rep ttl bdy us hdrs st res w =
     (let r = \<lparr>col_id = next_rowid w, col_ts = ts, col_reporter = rep, col_title = ttl,
               col_body = bdy, col_urls = us, col_headers = hdrs,
               col_analyzer_status = st, col_analyzer_result = res\<rparr>
      in (w\<lparr>rows := rows w @ [r], sequence := col_id r,
             performed := performed w @ [Sql_insert r]\<rparr>, col_id r))"

text \<open>\<^verbatim>\<open>cur.execute("UPDATE tickets SET analyzer_status=?, analyzer_result=? WHERE id=?", ...)\<close>\<close>

definition execute_update :: "pystr \<Rightarrow> json option \<Rightarrow> int \<Rightarrow> world \<Rightarrow> world" where
  "execute_update st res tid w =
     w\<lparr>rows := map (\<lambda>r. if col_id r = tid
                         then r\<lparr>col_analyzer_status := st, col_analyzer_result := res\<rparr>
                         else r) (rows w),
       performed := performed w @ [Sql_update tid st res]\<rparr>"

definition commit :: "world \<Rightarrow> world" where
  "commit w = w\<lparr>performed := performed w @ [Sql_commit]\<rparr>"

text \<open>The analyzer, seen from the \<^verbatim>\<open>try\<close> block: \<^verbatim>\<open>client.post\<close> either raises
  (a timeout or a transport error; the text is \<^verbatim>\<open>str(e)\<close>) or returns a response.
  Of a response the block uses \<^verbatim>\<open>raise_for_status()\<close>, which raises for a
  non-success status (\<open>status_error\<close> is then \<^verbatim>\<open>str(e)\<close>) and returns otherwise,
  and \<^verbatim>\<open>resp.text\<close> (\<open>resp_text\<close>).\<close>

datatype response = Response (status_error: "pystr option") (resp_text: pystr)

datatype post_result = Raised pystr | Returned response

type_synonym analyzer = "pystr \<Rightarrow> post_result"

definition client_post :: "analyzer \<Rightarrow> pystr \<Rightarrow> world \<Rightarrow> world \<times> post_result" where
  "client_post an hdrs w = (w\<lparr>performed := performed w @ [Http_post hdrs]\<rparr>, an hdrs)"

text \<open>
  \<^verbatim>\<open>
  try:
      with httpx.Client(timeout=20.0) as client:
          resp = client.post(ANALYZER_FORM_URL, data={"headers": t.headers})
      resp.raise_for_status()
      analysis = {"html": resp.text}
  except Exception as e:
      analysis = {"error": str(e)}
      analyzer_call_ok = False
  \<close>
  The result is the pair of \<^verbatim>\<open>analysis\<close> and \<^verbatim>\<open>analyzer_call_ok\<close>.
\<close>

definition try_result :: "post_result \<Rightarrow> (pystr \<times> json) list option \<times> bool" where
  "try_result pr =
     (case pr of
        Raised e \<Rightarrow> (Some [(str ''error'', JString e)], False)
      | Returned resp \<Rightarrow>
          (case status_error resp of
             Some e \<Rightarrow> (Some [(str ''error'', JString e)], False)
           | None \<Rightarrow> (Some [(str ''html'', JString (resp_text resp))], True)))"

definition call_analyzer ::
  "analyzer \<Rightarrow> ticket_in \<Rightarrow> world \<Rightarrow> world \<times> (pystr \<times> json) list option \<times> bool" where
  "call_analyzer an t w = (let (w', pr) = client_post an (headers t) w in (w', try_result pr))"

subsection \<open>The endpoints\<close>

text \<open>Step 1 of \<^verbatim>\<open>create_ticket\<close>: the row is stored as \<^verbatim>\<open>queued\<close>. The time
  \<open>now\<close> is the value of \<^verbatim>\<open>time.time()\<close>.\<close>

definition store_queued :: "real \<Rightarrow> ticket_in \<Rightarrow> world \<Rightarrow> world \<times> int" where
  "store_queued now t w =
     (let (w1, tid) =
            execute_insert now (reporter t) (title t) (body t)
              (join (str '','') (case urls t of None \<Rightarrow> [] | Some us \<Rightarrow> us))
              (headers t) (str ''queued'') None w
      in (commit w1, tid))"

text \<open>Steps 3 and 4: the verdict, the status, the merged result and the update.\<close>

definition decide_status :: "bool \<Rightarrow> verdict \<Rightarrow> pystr" where
  "decide_status analyzer_call_ok v =
     (if analyzer_call_ok then overall v else str ''analyzer_error'')"

definition attach_verdict :: "(pystr \<times> json) list option \<Rightarrow> verdict \<Rightarrow> (pystr \<times> json) list option" where
  "attach_verdict analysis v =
     (case analysis of
        Some a \<Rightarrow> Some (dict_set a (str ''verdict'') (json_of_verdict v))
      | None \<Rightarrow> None)"

definition save_outcome :: "pystr \<Rightarrow> (pystr \<times> json) list option \<Rightarrow> int \<Rightarrow> world \<Rightarrow> world" where
  "save_outcome st analysis tid w =
     commit (execute_update st (map_option JObject analysis) tid w)"

definition create_ticket :: "real \<Rightarrow> analyzer \<Rightarrow> ticket_in \<Rightarrow> world \<Rightarrow> world \<times> ticket_out" where
  "create_ticket now an t w =
     (let (w1, tid) = store_queued now t w;
          (w2, analysis, analyzer_call_ok) = call_analyzer an t w1;
          v = auth_verdict_from_headers (headers t);
          st = decide_status analyzer_call_ok v;
          analysis' = attach_verdict analysis v;
          w3 = save_outcome st analysis' tid w2
      in (w3, \<lparr>ticket_id = tid, status = st\<rparr>))"

text \<open>\<^verbatim>\<open>get_ticket\<close> and \<^verbatim>\<open>list_tickets\<close>. The error of the source's own is
  the \<^verbatim>\<open>HTTPException(404, "ticket not found")\<close> of \<^verbatim>\<open>get_ticket\<close>. The
  ids are those that SQLite can hold, the signed integers of 64 bits: for an id
  outside this range the database driver raises \<^verbatim>\<open>OverflowError\<close> when the
  query is run, which is not part of this embedding.\<close>

datatype http_error = HTTPException nat pystr

record ticket_summary =
  sum_id :: int
  sum_ts :: real
  sum_reporter :: pystr
  sum_title :: pystr
  sum_body :: pystr
  sum_urls :: "pystr list"
  sum_analyzer_status :: pystr

record ticket_detail =
  det_id :: int
  det_ts :: real
  det_reporter :: pystr
  det_title :: pystr
  det_body :: pystr
  det_urls :: "pystr list"
  det_headers :: pystr
  det_analyzer_status :: pystr
  det_analyzer_result :: "json option"

definition urls_of_column :: "pystr \<Rightarrow> pystr list" where
  "urls_of_column u = (if u \<noteq> [] then split_on (Latin CHR '','') u else [])"

definition fetchone :: "int \<Rightarrow> world \<Rightarrow> row option" where
  "fetchone tid w = find (\<lambda>r. col_id r = tid) (rows w)"

definition get_ticket :: "int \<Rightarrow> world \<Rightarrow> http_error + ticket_detail" where
  "get_ticket tid w =
     (case fetchone tid w of
        None \<Rightarrow> Inl (HTTPException 404 (str ''ticket not found''))
      | Some r \<Rightarrow>
          Inr \<lparr>det_id = col_id r, det_ts = col_ts r, det_reporter = col_reporter r,
               det_title = col_title r, det_body = col_body r,
               det_urls = urls_of_column (col_urls r), det_headers = col_headers r,
               det_analyzer_status = col_analyzer_status r,
               det_analyzer_result = col_analyzer_result r\<rparr>)"

definition list_tickets :: "world \<Rightarrow> ticket_summary list" where
  "list_tickets w =
     map (\<lambda>r. \<lparr>sum_id = col_id r, sum_ts = col_ts r, sum_reporter = col_reporter r,
                sum_title = col_title r, sum_body = col_body r,
                sum_urls = urls_of_column (col_urls r),
                sum_analyzer_status = col_analyzer_status r\<rparr>)
       (rev (sort_key col_id (rows w)))"

subsection \<open>Notions used to state the properties of the ticket lifecycle\<close>

text \<open>The row that step 1 of \<^verbatim>\<open>create_ticket\<close> inserts: the values of the
  \<^verbatim>\<open>INSERT\<close> statement under the key that the table assigns.\<close>

definition queued_row :: "real \<Rightarrow> ticket_in \<Rightarrow> world \<Rightarrow> row" where
  "queued_row now t w =
     \<lparr>col_id = next_rowid w, col_ts = now, col_reporter = reporter t, col_title = title t,
      col_body = body t,
      col_urls = join (str '','') (case urls t of None \<Rightarrow> [] | Some us \<Rightarrow> us),
      col_headers = headers t, col_analyzer_status = str ''queued'', col_analyzer_result = None\<rparr>"

text \<open>The Analyzer Gateway call fails when \<^verbatim>\<open>client.post\<close> raises (timeout,
  transport error) or the response has a non-success status.\<close>

definition gateway_failed :: "post_result \<Rightarrow> bool" where
  "gateway_failed pr = (case pr of Raised e \<Rightarrow> True | Returned resp \<Rightarrow> status_error resp \<noteq> None)"

text \<open>The persistence writes are the \<^verbatim>\<open>INSERT\<close> and \<^verbatim>\<open>UPDATE\<close>
  statements; the outbound calls are the posts to the analyzer.\<close>

definition is_persistence_write :: "effect \<Rightarrow> bool" where
  "is_persistence_write e = (case e of Sql_insert r \<Rightarrow> True | Sql_update i s r \<Rightarrow> True | _ \<Rightarrow> False)"

definition is_outbound_call :: "effect \<Rightarrow> bool" where
  "is_outbound_call e = (case e of Http_post h \<Rightarrow> True | _ \<Rightarrow> False)"

text \<open>The merged result object and the terminal status, as functions of the
  analyzer's answer and the verdict.\<close>

definition merged_result :: "post_result \<Rightarrow> verdict \<Rightarrow> json" where
  "merged_result pr v =
     JObject [(case pr of
                 Raised e \<Rightarrow> (str ''error'', JString e)
               | Returned resp \<Rightarrow>
                   (case status_error resp of
                      Some e \<Rightarrow> (str ''error'', JString e)
                    | None \<Rightarrow> (str ''html'', JString (resp_text resp)))),
              (str ''verdict'', json_of_verdict v)]"

definition final_status :: "analyzer \<Rightarrow> ticket_in \<Rightarrow> pystr" where
  "final_status an t =
     (if gateway_failed (an (headers t)) then str ''analyzer_error''
      else overall (auth_verdict_from_headers (headers t)))"

text \<open>Sample inputs: an empty table, a submission with given raw headers, and the
  header line of a message that passes SPF, DKIM and DMARC.\<close>

definition empty_world :: world where
  "empty_world = \<lparr>rows = [], sequence = 0, performed = []\<rparr>"

definition sample_ticket :: "pystr \<Rightarrow> ticket_in" where
  "sample_ticket hdrs =
     \<lparr>reporter = str ''alice@example.com'', title = str ''Suspicious mail'', body = str ''Please check'',
      urls = Some [(str ''http://a.example/x''), (str ''http://b.example/y'')], headers = hdrs\<rparr>"

definition triple_pass_headers :: pystr where
  "triple_pass_headers =
     (str ''Authentication-Results: spf=pass smtp.mailfrom=x; dkim=pass header.d=x; dmarc=pass header.from=x'')"

subsection \<open>Auxiliary notions for the proofs about the matcher\<close>

text \<open>The character before the position reached after reading \<open>m\<close>.\<close>

fun prev_after :: "pychar option \<Rightarrow> pystr \<Rightarrow> pychar option" where
  "prev_after p [] = p"
| "prev_after p (c # cs) = prev_after (Some c) cs"

text \<open>The characters that the class \<^verbatim>\<open>[a-zA-Z]\<close> of the source's pattern matches,
  and the texts that a literal of the pattern matches, both with
  \<^verbatim>\<open>re.IGNORECASE\<close>.\<close>

definition letter_class :: "pychar \<Rightarrow> bool" where
  "letter_class c = in_class True Letters c"

definition matches_literal :: "string \<Rightarrow> pystr \<Rightarrow> bool" where
  "matches_literal l m = list_all2 (char_matches True) l m"

text \<open>What the parts of the pattern compute, written without backtracking: the word
  \<^verbatim>\<open>([a-zA-Z]+)\<close>, the part \<^verbatim>\<open>\s*=\s*([a-zA-Z]+)\<close> after the mechanism, and the
  attempt for one mechanism. They are proved equal to the matcher on these parts.\<close>

definition word_direct :: "mstate \<Rightarrow> mstate option" where
  "word_direct st =
     (case st of (p, s, g) \<Rightarrow>
        (let w = takeWhile letter_class s in
         if w = [] then None
         else Some (Some (last w), dropWhile letter_class s, (2, w) # g)))"

definition tail_direct :: "mstate \<Rightarrow> mstate option" where
  "tail_direct st =
     (case st of (p, s, g) \<Rightarrow>
        (case dropWhile is_space s of
           [] \<Rightarrow> None
         | c # s3 \<Rightarrow>
             if c = Latin CHR ''='' then word_direct (Some c, dropWhile is_space s3, g)
             else None))"

definition TAIL :: regex where
  "TAIL = Cat (Star Whitespace) (Cat (Lit ''='') (Cat (Star Whitespace) (Group 2 (Plus Letters))))"

definition not_letter_next :: "pystr \<Rightarrow> bool" where
  "not_letter_next rest = (case rest of [] \<Rightarrow> True | c # _ \<Rightarrow> \<not> letter_class c)"

definition try_mech :: "string \<Rightarrow> pychar option \<Rightarrow> pystr \<Rightarrow> mstate option" where
  "try_mech l p s =
     (case lit_match True l p s of
        None \<Rightarrow> None
      | Some (p', s') \<Rightarrow> tail_direct (p', s', [(1, take (length s - length s') s)]))"

subsection \<open>The pattern in words\<close>

text \<open>An occurrence of \<^verbatim>\<open><mechanism> = <word>\<close> at the start of \<open>s\<close>, with the
  character \<open>p\<close> before it: the mechanism \<open>m\<close> is a text that the pattern accepts
  for spf, dkim or dmarc when case is ignored, whitespace may surround the equals sign,
  and the word \<open>w\<close> is one or more letters of the pattern's class. Two conditions come
  from the source's pattern and are not in the specification's sentence: the mechanism
  starts at a word boundary (no word character before it), and the word is the longest
  run of letters (no letter follows it).\<close>

definition pattern_at :: "pychar option \<Rightarrow> pystr \<Rightarrow> pystr \<Rightarrow> pystr \<Rightarrow> pystr \<Rightarrow> bool" where
  "pattern_at p s m w rest \<longleftrightarrow>
     \<not> word_before p
     \<and> (\<exists>l \<in> {''spf'', ''dkim'', ''dmarc''}. matches_literal l m)
     \<and> (\<exists>ws1 ws2. s = m @ ws1 @ str ''='' @ ws2 @ w @ rest
            \<and> list_all is_space ws1 \<and> list_all is_space ws2)
     \<and> w \<noteq> [] \<and> list_all letter_class w
     \<and> not_letter_next rest"



text \<open>The pattern as the specification words it, without the word boundary, and its
  occurrences at all positions of a text, overlapping or not: the pairs that a recording
  "at each occurrence" would give.\<close>

definition SPEC_PATTERN :: regex where
  "SPEC_PATTERN =
     Cat (Group 1 (Alt (Lit ''spf'') (Alt (Lit ''dkim'') (Lit ''dmarc''))))
       (Cat (Star Whitespace)
         (Cat (Lit ''='')
           (Cat (Star Whitespace)
             (Group 2 (Plus Letters)))))"

definition spec_occurrence_at :: "pystr \<Rightarrow> (pystr \<times> pystr) option" where
  "spec_occurrence_at s =
     (case rmatch True SPEC_PATTERN (None, s, []) Some of
        None \<Rightarrow> None
      | Some (p', s', g) \<Rightarrow> signal_of g)"

fun spec_occurrences :: "pystr \<Rightarrow> (pystr \<times> pystr) list" where
  "spec_occurrences [] = []"
| "spec_occurrences (c # cs) =
     (case spec_occurrence_at (c # cs) of None \<Rightarrow> [] | Some kv \<Rightarrow> [kv]) @ spec_occurrences cs"

text \<open>The letters outside ASCII that the source's pattern accepts because it is
  compiled with \<^verbatim>\<open>re.IGNORECASE\<close> and without \<^verbatim>\<open>re.ASCII\<close>, and the lines
  in which none of them occurs.\<close>

fun ignorecase_extra :: "pychar \<Rightarrow> bool" where
  "ignorecase_extra Capital_I_dot = True"
| "ignorecase_extra Dotless_i = True"
| "ignorecase_extra Long_s = True"
| "ignorecase_extra Kelvin = True"
| "ignorecase_extra c = False"

definition plain_line :: "pystr \<Rightarrow> bool" where
  "plain_line s = list_all (\<lambda>c. \<not> ignorecase_extra c) s"


section \<open>Properties\<close>

subsection \<open>String literals\<close>

lemma str_inject [simp]: "str a = str b \<longleftrightarrow> a = b"
  by (simp add: str_def inj_map_eq_map inj_def)

lemma str_Nil [simp]: "str [] = []"
  by (simp add: str_def)

lemma str_eq_Nil [simp]: "str a = [] \<longleftrightarrow> a = []"
  by (simp add: str_def)

subsection \<open>Header Scanner\<close>

lemma splitlines_from_no_break:
  "\<forall>c \<in> set cur. \<not> is_linebreak c \<Longrightarrow> l \<in> set (splitlines_from cur s) \<Longrightarrow> c \<in> set l
     \<Longrightarrow> \<not> is_linebreak c"
proof (induction cur s rule: splitlines_from.induct)
  case (1 cur)
  then show ?case by (auto split: if_splits)
next
  case (2 cur c' cs)
  show ?case
  proof (cases "is_linebreak c'")
    case False
    with 2 show ?thesis by auto
  next
    case True
    show ?thesis
    proof (cases cs)
      case Nil
      with True 2 show ?thesis by auto
    next
      case (Cons d ds)
      with True 2 show ?thesis by (auto split: if_splits)
    qed
  qed
qed

lemma foldl_collect_step:
  "foldl collect_step acc ls =
     acc @ filter (\<lambda>line. startswith (lower line) (str ''authentication-results'')
                        \<or> startswith (lower line) (str ''authentication-results-original'')) ls"
  by (induction ls arbitrary: acc) (auto simp: collect_step_def)

text \<open>
  Claim C8. The Header Scanner splits the header block at the line boundaries, never
  joining a folded line to the one before (no selected line contains a line boundary),
  and selects, in the order of the text, exactly the lines whose lowercased form starts
  with \<^verbatim>\<open>authentication-results\<close> or \<^verbatim>\<open>authentication-results-original\<close>. The
  scanner is a total function: every text, also one without such a line, gives a
  (possibly empty) sequence.
\<close>

theorem header_scanner_selects:
  "collect_lines raw =
     filter (\<lambda>line. startswith (lower line) (str ''authentication-results'')
                   \<or> startswith (lower line) (str ''authentication-results-original''))
       (splitlines raw)
   \<and> (\<forall>line \<in> set (collect_lines raw). \<forall>c \<in> set line. \<not> is_linebreak c)"
proof -
  have sel: "collect_lines raw =
     filter (\<lambda>line. startswith (lower line) (str ''authentication-results'')
                   \<or> startswith (lower line) (str ''authentication-results-original''))
       (splitlines raw)"
    by (simp add: collect_lines_def foldl_collect_step)
  have "\<forall>line \<in> set (splitlines raw). \<forall>c \<in> set line. \<not> is_linebreak c"
    unfolding splitlines_def using splitlines_from_no_break [of "[]" _ raw] by auto
  with sel show ?thesis by auto
qed

theorem header_scanner_selects_witness:
  "collect_lines (str ''Received: x'' @ [Latin (CHR 0x0A)] @ str ''Authentication-Results: spf=pass''
       @ [Latin (CHR 0x0D), Latin (CHR 0x0A)] @ str '' dkim=pass'' @ [Latin (CHR 0x0A)]
       @ str ''AUTHENTICATION-RESULTS-ORIGINAL: dmarc=pass'')
     = [str ''Authentication-Results: spf=pass'', str ''AUTHENTICATION-RESULTS-ORIGINAL: dmarc=pass'']
   \<and> list_all (list_all (\<lambda>c. \<not> is_linebreak c))
        (collect_lines (str ''Received: x'' @ [Latin (CHR 0x0A)]
           @ str ''Authentication-Results: spf=pass'' @ [Latin (CHR 0x0D), Latin (CHR 0x0A)] @ str '' dkim=pass''
           @ [Latin (CHR 0x0A)] @ str ''AUTHENTICATION-RESULTS-ORIGINAL: dmarc=pass''))"
  (is "collect_lines ?X = ?L \<and> ?B")
proof -
  have e: "filter (\<lambda>line. startswith (lower line) (str ''authentication-results'')
                   \<or> startswith (lower line) (str ''authentication-results-original''))
       (splitlines ?X) = ?L"
    by code_simp
  note h = header_scanner_selects [of ?X]
  from h have a: "collect_lines ?X = ?L" unfolding e by (rule conjunct1)
  from h have "\<forall>line \<in> set (collect_lines ?X). \<forall>c \<in> set line. \<not> is_linebreak c"
    by (rule conjunct2)
  then have b: ?B unfolding list_all_iff .
  from a b show ?thesis by (rule conjI)
qed

subsection \<open>Verdict Resolver\<close>

text \<open>
  Claim C1. For every mapping of mechanism results: when none of spf, dkim and dmarc is
  present the overall verdict is \<^verbatim>\<open>unknown\<close>; otherwise, when some present value
  is not exactly \<^verbatim>\<open>pass\<close>, it is \<^verbatim>\<open>fail\<close>; otherwise (all present values are
  \<^verbatim>\<open>pass\<close>) it is \<^verbatim>\<open>pass\<close> if all three mechanisms are present and
  \<^verbatim>\<open>fail\<close> if one is missing.
\<close>

theorem verdict_resolver_cases:
  "overall (resolve_verdict found) =
     (if found (str ''spf'') = None \<and> found (str ''dkim'') = None \<and> found (str ''dmarc'') = None then str ''unknown''
      else if \<exists>k \<in> {str ''spf'', str ''dkim'', str ''dmarc''}. \<exists>v. found k = Some v \<and> v \<noteq> str ''pass''
        then str ''fail''
      else if found (str ''spf'') \<noteq> None \<and> found (str ''dkim'') \<noteq> None \<and> found (str ''dmarc'') \<noteq> None
        then str ''pass''
      else str ''fail'')"
  by (cases "found (str ''spf'')"; cases "found (str ''dkim'')"; cases "found (str ''dmarc'')")
     (auto simp: resolve_verdict_def derive_overall_def GOOD_VALUE_def Let_def)

theorem verdict_resolver_cases_witness:
  "overall (resolve_verdict Map.empty) = str ''unknown''
   \<and> overall (resolve_verdict [str ''spf'' \<mapsto> str ''pass'', str ''dkim'' \<mapsto> str ''softfail'', str ''dmarc'' \<mapsto> str ''pass''])
       = str ''fail''
   \<and> overall (resolve_verdict [str ''dkim'' \<mapsto> str ''pass'']) = str ''fail''
   \<and> overall (resolve_verdict [str ''spf'' \<mapsto> str ''pass'', str ''dkim'' \<mapsto> str ''pass'', str ''dmarc'' \<mapsto> str ''pass''])
       = str ''pass''"
  using verdict_resolver_cases [of Map.empty]
    verdict_resolver_cases [of "[str ''spf'' \<mapsto> str ''pass'', str ''dkim'' \<mapsto> str ''softfail'', str ''dmarc'' \<mapsto> str ''pass'']"]
    verdict_resolver_cases [of "[str ''dkim'' \<mapsto> str ''pass'']"]
    verdict_resolver_cases [of "[str ''spf'' \<mapsto> str ''pass'', str ''dkim'' \<mapsto> str ''pass'', str ''dmarc'' \<mapsto> str ''pass'']"]
  by simp

subsection \<open>Signal Extractor: the first result of a mechanism wins\<close>

lemma found_step_map_of:
  "found_step (map_of ps) m = map_of (ps @ (case signal_of m of None \<Rightarrow> [] | Some kv \<Rightarrow> [kv]))"
  by (auto simp: found_step_def signal_of_def setdefault_def map_add_def fun_eq_iff
      split: option.splits)

lemma foldl_found_step:
  "foldl found_step (map_of ps) ms = map_of (ps @ List.map_filter signal_of ms)"
proof (induction ms arbitrary: ps)
  case Nil
  then show ?case by simp
next
  case (Cons m ms)
  show ?case
  proof (cases "signal_of m")
    case None
    then show ?thesis
      using Cons.IH [of ps] by (simp add: found_step_map_of del: map_of_append)
  next
    case (Some kv)
    then show ?thesis
      using Cons.IH [of "ps @ [kv]"]
      by (simp add: found_step_map_of del: map_of_append)
  qed
qed

lemma foldl_lines_found:
  "foldl (\<lambda>found l. foldl found_step found (finditer RESULT_RE l)) (map_of ps) lines
     = map_of (ps @ signals lines)"
proof (induction lines arbitrary: ps)
  case Nil
  then show ?case by (simp add: signals_def)
next
  case (Cons l lines)
  show ?case
    using Cons.IH [of "ps @ line_signals l"]
    by (simp add: signals_def foldl_found_step line_signals_def del: map_of_append)
qed

lemma collect_found_map_of: "collect_found lines = map_of (signals lines)"
  using foldl_lines_found [of "[]" lines] by (simp add: collect_found_def)

text \<open>
  Claim C4. When the matches of the scanned candidate lines, taken in document order,
  hold two or more results for one mechanism, the mapping keeps the first: a pair
  \<open>(k, v)\<close> with no earlier pair for \<open>k\<close> fixes the entry of \<open>k\<close>, whatever
  follows it. The mapping is the first-match lookup in the sequence of pairs.
\<close>

theorem first_seen_wins:
  "collect_found lines = map_of (signals lines)
   \<and> (\<forall>ps k v qs. signals lines = ps @ (k, v) # qs \<and> k \<notin> fst ` set ps
        \<longrightarrow> collect_found lines k = Some v)"
proof -
  have "collect_found lines k = Some v"
    if "signals lines = ps @ (k, v) # qs" "k \<notin> fst ` set ps" for ps k v qs
    using that
    by (simp add: collect_found_map_of map_add_def map_of_eq_None_iff [THEN iffD2]
        split: option.splits)
  then show ?thesis using collect_found_map_of by blast
qed

theorem first_seen_wins_witness:
  "signals [str ''Authentication-Results: spf=fail; spf=pass'',
            (str ''Authentication-Results: SPF=none dkim=pass; dkim=fail'')]
     = [(str ''spf'', str ''fail''), (str ''spf'', str ''pass''), (str ''spf'', str ''none''),
        (str ''dkim'', str ''pass''), (str ''dkim'', str ''fail'')]
   \<and> collect_found [str ''Authentication-Results: spf=fail; spf=pass'',
                    (str ''Authentication-Results: SPF=none dkim=pass; dkim=fail'')] (str ''spf'')
       = Some (str ''fail'')
   \<and> collect_found [str ''Authentication-Results: spf=fail; spf=pass'',
                    (str ''Authentication-Results: SPF=none dkim=pass; dkim=fail'')] (str ''dkim'')
       = Some (str ''pass'')"
  (is "signals ?L = ?S \<and> _ \<and> _")
proof -
  have s: "signals ?L = ?S" by code_simp
  have w: "\<forall>ps k v qs. signals ?L = ps @ (k, v) # qs \<and> k \<notin> fst ` set ps
        \<longrightarrow> collect_found ?L k = Some v"
    using first_seen_wins [of ?L] by (rule conjunct2)
  have a: "collect_found ?L (str ''spf'') = Some (str ''fail'')"
    using w [rule_format, of "[]" "str ''spf''" "str ''fail''"
        "[(str ''spf'', str ''pass''), (str ''spf'', str ''none''), (str ''dkim'', str ''pass''), (str ''dkim'', str ''fail'')]"]
    by (simp add: s)
  have b: "collect_found ?L (str ''dkim'') = Some (str ''pass'')"
    using w [rule_format, of "[(str ''spf'', str ''fail''), (str ''spf'', str ''pass''), (str ''spf'', str ''none'')]"
        "str ''dkim''" "str ''pass''" "[(str ''dkim'', str ''fail'')]"]
    by (simp add: s)
  from s a b show ?thesis by simp
qed

subsection \<open>The ticket lifecycle\<close>

lemma fold_max_ge: "(a::int) \<le> fold max xs a"
  by (induction xs arbitrary: a) (auto intro: order_trans [OF max.cobounded2])

lemma fold_max_mem: "x \<in> set xs \<Longrightarrow> (x::int) \<le> fold max xs a"
proof (induction xs arbitrary: a)
  case Nil
  then show ?case by simp
next
  case (Cons y ys)
  show ?case
  proof (cases "x = y")
    case True
    have "y \<le> max y a" by simp
    also have "\<dots> \<le> fold max ys (max y a)" by (rule fold_max_ge)
    finally show ?thesis using True by simp
  next
    case False
    with Cons show ?thesis by simp
  qed
qed

lemma rowid_fresh: "r \<in> set (rows w) \<Longrightarrow> col_id r < next_rowid w"
proof -
  assume "r \<in> set (rows w)"
  then have "col_id r \<le> fold max (map col_id (rows w)) 0"
    by (intro fold_max_mem) simp
  then show ?thesis by (simp add: next_rowid_def)
qed

lemma update_old_rows:
  "map (\<lambda>r. if col_id r = next_rowid w then f r else r) (rows w) = rows w"
proof -
  have "\<forall>r \<in> set (rows w). col_id r \<noteq> next_rowid w"
    using rowid_fresh by fastforce
  then show ?thesis by (simp add: map_idI)
qed

lemma store_queued_eq:
  "store_queued now t w =
     (\<lparr>rows = rows w @ [queued_row now t w], sequence = next_rowid w,
       performed = performed w @ [Sql_insert (queued_row now t w), Sql_commit]\<rparr>,
      next_rowid w)"
  by (simp add: store_queued_def execute_insert_def commit_def queued_row_def Let_def)

lemma try_result_eq:
  "try_result pr =
     (Some [(case pr of
                 Raised e \<Rightarrow> (str ''error'', JString e)
               | Returned resp \<Rightarrow>
                   (case status_error resp of
                      Some e \<Rightarrow> (str ''error'', JString e)
                    | None \<Rightarrow> (str ''html'', JString (resp_text resp))))],
      \<not> gateway_failed pr)"
  by (simp add: try_result_def gateway_failed_def split: post_result.splits option.splits)

lemma attach_merged:
  "map_option JObject (attach_verdict (fst (try_result pr)) v) = Some (merged_result pr v)"
  by (simp add: try_result_eq attach_verdict_def merged_result_def
      split: post_result.splits option.splits)

lemma create_ticket_eq:
  "create_ticket now an t w =
     (\<lparr>rows = rows w @ [(queued_row now t w)
                 \<lparr>col_analyzer_status := final_status an t,
                  col_analyzer_result :=
                    Some (merged_result (an (headers t)) (auth_verdict_from_headers (headers t)))\<rparr>],
       sequence = next_rowid w,
       performed = performed w @
         [Sql_insert (queued_row now t w), Sql_commit, Http_post (headers t),
          Sql_update (next_rowid w) (final_status an t)
            (Some (merged_result (an (headers t)) (auth_verdict_from_headers (headers t)))),
          Sql_commit]\<rparr>,
      \<lparr>ticket_id = next_rowid w, status = final_status an t\<rparr>)"
proof -
  have id: "col_id (queued_row now t w) = next_rowid w" by (simp add: queued_row_def)
  have st: "decide_status (snd (try_result (an (headers t)))) v = 
      (if gateway_failed (an (headers t)) then str ''analyzer_error'' else overall v)" for v
    by (simp add: try_result_eq decide_status_def)
  show ?thesis
    unfolding create_ticket_def store_queued_eq call_analyzer_def client_post_def
      save_outcome_def execute_update_def commit_def
    by (simp add: Let_def case_prod_beta attach_merged st final_status_def update_old_rows id)
qed

lemma find_append_last:
  "\<forall>y \<in> set xs. \<not> P y \<Longrightarrow> P x \<Longrightarrow> find P (xs @ [x]) = Some x"
  by (induction xs) auto

lemma fetch_new_row:
  "col_id r = next_rowid w \<Longrightarrow>
   fetchone (next_rowid w) \<lparr>rows = rows w @ [r], sequence = s, performed = p\<rparr> = Some r"
proof -
  assume a: "col_id r = next_rowid w"
  have "\<forall>y \<in> set (rows w). \<not> col_id y = next_rowid w"
    using rowid_fresh by fastforce
  with a show ?thesis by (simp add: fetchone_def find_append_last)
qed

lemma overall_values:
  "overall (auth_verdict_from_headers h) \<in> {str ''pass'', str ''fail'', str ''unknown''}"
  by (simp add: auth_verdict_from_headers_def resolve_verdict_def derive_overall_def Let_def)

subsection \<open>The urls column\<close>

lemma split_from_no_sep:
  "sep \<notin> set u \<Longrightarrow> split_from sep cur (u @ rest) = split_from sep (cur @ u) rest"
  by (induction u arbitrary: cur) auto

lemma split_from_join:
  "us \<noteq> [] \<Longrightarrow> \<forall>u \<in> set us. sep \<notin> set u \<Longrightarrow>
   split_from sep cur (join [sep] us) = (cur @ hd us) # tl us"
proof (induction us arbitrary: cur)
  case Nil
  then show ?case by simp
next
  case (Cons x xs)
  show ?case
  proof (cases xs)
    case Nil
    then show ?thesis using Cons.prems split_from_no_sep [of sep x cur "[]"] by simp
  next
    case (Cons y ys)
    have "split_from sep cur (join [sep] (x # y # ys))
        = split_from sep (cur @ x) (sep # join [sep] (y # ys))"
      using Cons.prems split_from_no_sep [of sep x cur "sep # join [sep] (y # ys)"] by simp
    also have "\<dots> = (cur @ x) # split_from sep [] (join [sep] (y # ys))" by simp
    also have "\<dots> = (cur @ x) # y # ys"
      using Cons.IH [of "[]"] Cons.prems Cons by simp
    finally show ?thesis using Cons by simp
  qed
qed

lemma join_nonempty:
  "us \<noteq> [] \<Longrightarrow> \<forall>u \<in> set us. u \<noteq> [] \<Longrightarrow> join sep us \<noteq> []"
proof (cases us)
  case Nil
  then show "us \<noteq> [] \<Longrightarrow> ?thesis" by simp
next
  case (Cons x xs)
  then show "\<forall>u \<in> set us. u \<noteq> [] \<Longrightarrow> ?thesis" by (cases xs) auto
qed

lemma urls_column_round_trip:
  assumes "\<forall>u \<in> set us. u \<noteq> [] \<and> Latin CHR '','' \<notin> set u"
  shows "urls_of_column (join (str '','') us) = us"
proof (cases "us = []")
  case True
  then show ?thesis by (simp add: urls_of_column_def)
next
  case False
  with assms have "join (str '','') us \<noteq> []" by (intro join_nonempty) auto
  moreover have "split_from (Latin CHR '','') [] (join [Latin CHR '',''] us) = ([] @ hd us) # tl us"
    using False assms by (intro split_from_join) auto
  moreover have "str '','' = [Latin CHR '','']" by (simp add: str_def)
  ultimately show ?thesis using False by (simp add: urls_of_column_def split_on_def)
qed

subsection \<open>The claims about \<^verbatim>\<open>create_ticket\<close>\<close>

lemma triple_pass_verdict:
  "auth_verdict_from_headers triple_pass_headers =
     \<lparr>spf = Some (str ''pass''), dkim = Some (str ''pass''), dmarc = Some (str ''pass''), overall = str ''pass''\<rparr>"
  by code_simp

lemma next_rowid_empty: "next_rowid empty_world = 1"
  by (simp add: next_rowid_def empty_world_def)

text \<open>
  Claim C2. When the Analyzer Gateway call fails (\<^verbatim>\<open>client.post\<close> raises, as
  for a timeout or a transport error, or the response has a non-success status) with
  description \<open>e\<close>, the terminal status is \<^verbatim>\<open>analyzer_error\<close> whatever the
  verdict is, and the stored result is the object with the keys \<^verbatim>\<open>error\<close> (the
  description) and \<^verbatim>\<open>verdict\<close> (the verdict computed from the raw headers). When
  the call succeeds the stored result is the object with the keys \<^verbatim>\<open>html\<close> (the
  response body) and \<^verbatim>\<open>verdict\<close>, and the status is the overall verdict.
\<close>

theorem gateway_failure_keeps_verdict:
  "(an (headers t) = Raised e \<or> (\<exists>resp. an (headers t) = Returned resp \<and> status_error resp = Some e)
      \<longrightarrow> status (snd (create_ticket now an t w)) = str ''analyzer_error''
        \<and> map_option col_analyzer_result
            (fetchone (ticket_id (snd (create_ticket now an t w))) (fst (create_ticket now an t w)))
          = Some (Some (JObject [(str ''error'', JString e),
                (str ''verdict'', json_of_verdict (auth_verdict_from_headers (headers t)))])))
   \<and> (an (headers t) = Returned resp \<and> status_error resp = None
      \<longrightarrow> status (snd (create_ticket now an t w)) = overall (auth_verdict_from_headers (headers t))
        \<and> map_option col_analyzer_result
            (fetchone (ticket_id (snd (create_ticket now an t w))) (fst (create_ticket now an t w)))
          = Some (Some (JObject [(str ''html'', JString (resp_text resp)),
                (str ''verdict'', json_of_verdict (auth_verdict_from_headers (headers t)))])))"
proof -
  have id: "col_id (queued_row now t w) = next_rowid w" by (simp add: queued_row_def)
  have f: "map_option col_analyzer_result
            (fetchone (ticket_id (snd (create_ticket now an t w))) (fst (create_ticket now an t w)))
     = Some (Some (merged_result (an (headers t)) (auth_verdict_from_headers (headers t))))"
    by (simp add: create_ticket_eq fetch_new_row id)
  have s: "status (snd (create_ticket now an t w)) = final_status an t"
    by (simp add: create_ticket_eq)
  show ?thesis
    unfolding f s by (auto simp: merged_result_def final_status_def gateway_failed_def)
qed

theorem gateway_failure_keeps_verdict_witness:
  "status (snd (create_ticket 0 (\<lambda>h. Raised (str ''timed out'')) (sample_ticket triple_pass_headers)
       empty_world)) = str ''analyzer_error''
   \<and> map_option col_analyzer_result
        (fetchone 1 (fst (create_ticket 0 (\<lambda>h. Raised (str ''timed out''))
           (sample_ticket triple_pass_headers) empty_world)))
      = Some (Some (JObject [(str ''error'', JString (str ''timed out'')),
           (str ''verdict'', JObject [(str ''spf'', JString (str ''pass'')), (str ''dkim'', JString (str ''pass'')),
              (str ''dmarc'', JString (str ''pass'')), (str ''overall'', JString (str ''pass''))])]))
   \<and> status (snd (create_ticket 0 (\<lambda>h. Returned (Response None (str ''<html>ok</html>'')))
        (sample_ticket triple_pass_headers) empty_world)) = str ''pass''
   \<and> map_option col_analyzer_result
        (fetchone 1 (fst (create_ticket 0 (\<lambda>h. Returned (Response None (str ''<html>ok</html>'')))
           (sample_ticket triple_pass_headers) empty_world)))
      = Some (Some (JObject [(str ''html'', JString (str ''<html>ok</html>'')),
           (str ''verdict'', JObject [(str ''spf'', JString (str ''pass'')), (str ''dkim'', JString (str ''pass'')),
              (str ''dmarc'', JString (str ''pass'')), (str ''overall'', JString (str ''pass''))])]))"
proof -
  have h: "headers (sample_ticket triple_pass_headers) = triple_pass_headers"
    by (simp add: sample_ticket_def)
  have i: "ticket_id (snd (create_ticket 0 an (sample_ticket triple_pass_headers) empty_world)) = 1"
    for an
    by (simp add: create_ticket_def store_queued_def execute_insert_def next_rowid_empty
        case_prod_beta Let_def)
  show ?thesis
    using gateway_failure_keeps_verdict [of "\<lambda>h. Raised (str ''timed out'')"
        "sample_ticket triple_pass_headers" "str ''timed out''" 0 empty_world]
      gateway_failure_keeps_verdict [of "\<lambda>h. Returned (Response None (str ''<html>ok</html>''))"
        "sample_ticket triple_pass_headers" _ 0 empty_world "Response None (str ''<html>ok</html>'')"]
    by (simp add: h i triple_pass_verdict json_of_verdict_def json_of_optional_def)
qed

text \<open>
  Claim C3. The record of a submission has the status \<^verbatim>\<open>queued\<close> after step 1
  and, at the end, the status that Submit returns, which is one of \<^verbatim>\<open>pass\<close>,
  \<^verbatim>\<open>fail\<close>, \<^verbatim>\<open>unknown\<close> and \<^verbatim>\<open>analyzer_error\<close>. It is
  \<^verbatim>\<open>analyzer_error\<close> if and only if the Analyzer Gateway call failed
  (\<^verbatim>\<open>analyzer_call_ok\<close> is false), that is, unless \<^verbatim>\<open>client.post\<close> returned
  a response of success status.
\<close>

theorem ticket_status_values:
  "map_option col_analyzer_status
      (fetchone (snd (store_queued now t w)) (fst (store_queued now t w))) = Some (str ''queued'')
   \<and> ticket_id (snd (create_ticket now an t w)) = snd (store_queued now t w)
   \<and> map_option col_analyzer_status
        (fetchone (ticket_id (snd (create_ticket now an t w))) (fst (create_ticket now an t w)))
      = Some (status (snd (create_ticket now an t w)))
   \<and> status (snd (create_ticket now an t w)) \<in> {str ''pass'', str ''fail'', str ''unknown'', str ''analyzer_error''}
   \<and> (status (snd (create_ticket now an t w)) = str ''analyzer_error''
        \<longleftrightarrow> \<not> snd (try_result (an (headers t))))
   \<and> (snd (try_result (an (headers t)))
        \<longleftrightarrow> (\<exists>resp. an (headers t) = Returned resp \<and> status_error resp = None))"
proof -
  have id: "col_id (queued_row now t w) = next_rowid w" by (simp add: queued_row_def)
  have q: "map_option col_analyzer_status
      (fetchone (snd (store_queued now t w)) (fst (store_queued now t w))) = Some (str ''queued'')"
    by (simp add: store_queued_eq fetch_new_row id) (simp add: queued_row_def)
  have i: "ticket_id (snd (create_ticket now an t w)) = snd (store_queued now t w)"
    by (simp add: create_ticket_eq store_queued_eq)
  have f: "map_option col_analyzer_status
        (fetchone (ticket_id (snd (create_ticket now an t w))) (fst (create_ticket now an t w)))
      = Some (status (snd (create_ticket now an t w)))"
    by (simp add: create_ticket_eq fetch_new_row id)
  have s: "status (snd (create_ticket now an t w)) = final_status an t"
    by (simp add: create_ticket_eq)
  have v: "final_status an t \<in> {str ''pass'', str ''fail'', str ''unknown'', str ''analyzer_error''}"
    using overall_values [of "headers t"] by (auto simp: final_status_def)
  have e: "final_status an t = str ''analyzer_error'' \<longleftrightarrow> \<not> snd (try_result (an (headers t)))"
    using overall_values [of "headers t"] by (auto simp: final_status_def try_result_eq)
  have g: "snd (try_result (an (headers t)))
        \<longleftrightarrow> (\<exists>resp. an (headers t) = Returned resp \<and> status_error resp = None)"
    by (auto simp: try_result_eq gateway_failed_def split: post_result.splits)
  from q i f v e g show ?thesis unfolding s by blast
qed

theorem ticket_status_values_witness:
  "map_option col_analyzer_status
      (fetchone 1 (fst (store_queued 0 (sample_ticket triple_pass_headers) empty_world)))
     = Some (str ''queued'')
   \<and> map_option col_analyzer_status
      (fetchone 1 (fst (create_ticket 0 (\<lambda>h. Returned (Response (Some (str ''503 Service Unavailable'')) (str ''busy'')))
          (sample_ticket triple_pass_headers) empty_world)))
     = Some (str ''analyzer_error'')
   \<and> status (snd (create_ticket 0 (\<lambda>h. Returned (Response (Some (str ''503 Service Unavailable'')) (str ''busy'')))
          (sample_ticket triple_pass_headers) empty_world)) = str ''analyzer_error''"
proof -
  have i: "snd (store_queued 0 (sample_ticket triple_pass_headers) empty_world) = 1"
    by (simp add: store_queued_def execute_insert_def next_rowid_empty case_prod_beta Let_def)
  have r: "\<not> snd (try_result (Returned (Response (Some (str ''503 Service Unavailable'')) (str ''busy''))))"
    by (simp add: try_result_def)
  show ?thesis
    using ticket_status_values [of 0 "sample_ticket triple_pass_headers" empty_world
        "\<lambda>h. Returned (Response (Some (str ''503 Service Unavailable'')) (str ''busy''))"]
    by (auto simp: i r)
qed

text \<open>
  Claim C6. Processing a submission performs, in this order, the insert of the record
  with status \<^verbatim>\<open>queued\<close> and no result, a commit, one post of the raw headers to
  the analyzer, the update of status and result of the record with the same key, and a
  commit: two persistence writes and one outbound call, whatever the analyzer answers.
  The table gains exactly one row, the inserted one with its status and result updated
  in place; the rows it held before are unchanged.
\<close>

theorem create_ticket_effects:
  "performed (fst (create_ticket now an t w)) =
     performed w @
       [Sql_insert (queued_row now t w), Sql_commit, Http_post (headers t),
        Sql_update (col_id (queued_row now t w)) (status (snd (create_ticket now an t w)))
          (map_option JObject
             (attach_verdict (fst (try_result (an (headers t))))
                (auth_verdict_from_headers (headers t)))),
        Sql_commit]
   \<and> col_analyzer_status (queued_row now t w) = str ''queued''
   \<and> col_analyzer_result (queued_row now t w) = None
   \<and> col_id (queued_row now t w) = ticket_id (snd (create_ticket now an t w))
   \<and> rows (fst (create_ticket now an t w)) =
        rows w @ [(queued_row now t w)
          \<lparr>col_analyzer_status := status (snd (create_ticket now an t w)),
           col_analyzer_result :=
             map_option JObject
               (attach_verdict (fst (try_result (an (headers t))))
                  (auth_verdict_from_headers (headers t)))\<rparr>]
   \<and> length (filter is_persistence_write
        (drop (length (performed w)) (performed (fst (create_ticket now an t w))))) = 2
   \<and> length (filter is_outbound_call
        (drop (length (performed w)) (performed (fst (create_ticket now an t w))))) = 1
   \<and> length (rows (fst (create_ticket now an t w))) = length (rows w) + 1"
  by (simp add: create_ticket_eq attach_merged is_persistence_write_def is_outbound_call_def)
     (simp add: queued_row_def)

theorem create_ticket_effects_witness:
  "performed (fst (create_ticket 0 (\<lambda>h. Raised (str ''timed out'')) (sample_ticket triple_pass_headers)
       empty_world)) =
     [Sql_insert (queued_row 0 (sample_ticket triple_pass_headers) empty_world), Sql_commit,
      Http_post triple_pass_headers,
      Sql_update 1 (str ''analyzer_error'')
        (Some (JObject [(str ''error'', JString (str ''timed out'')),
           (str ''verdict'', JObject [(str ''spf'', JString (str ''pass'')), (str ''dkim'', JString (str ''pass'')),
              (str ''dmarc'', JString (str ''pass'')), (str ''overall'', JString (str ''pass''))])])),
      Sql_commit]
   \<and> length (rows (fst (create_ticket 0 (\<lambda>h. Raised (str ''timed out''))
        (sample_ticket triple_pass_headers) empty_world))) = 1"
proof -
  have h: "headers (sample_ticket triple_pass_headers) = triple_pass_headers"
    by (simp add: sample_ticket_def)
  have i: "col_id (queued_row 0 (sample_ticket triple_pass_headers) empty_world) = 1"
    by (simp add: queued_row_def next_rowid_empty)
  have pe: "performed empty_world = []" "rows empty_world = []"
    by (simp_all add: empty_world_def)
  have s: "status (snd (create_ticket 0 (\<lambda>h. Raised (str ''timed out''))
      (sample_ticket triple_pass_headers) empty_world)) = str ''analyzer_error''"
    by (simp add: create_ticket_def case_prod_beta Let_def call_analyzer_def client_post_def
        try_result_def decide_status_def)
  have r: "map_option JObject
      (attach_verdict (fst (try_result (Raised (str ''timed out''))))
         (auth_verdict_from_headers triple_pass_headers)) =
      Some (JObject [(str ''error'', JString (str ''timed out'')),
           (str ''verdict'', JObject [(str ''spf'', JString (str ''pass'')), (str ''dkim'', JString (str ''pass'')),
              (str ''dmarc'', JString (str ''pass'')), (str ''overall'', JString (str ''pass''))])])"
    by (simp add: try_result_def attach_verdict_def triple_pass_verdict json_of_verdict_def
        json_of_optional_def)
  show ?thesis
    using create_ticket_effects [of 0 "\<lambda>h. Raised (str ''timed out'')"
        "sample_ticket triple_pass_headers" empty_world]
    by (simp add: h i s r pe)
qed

text \<open>
  Claim C9. Two submissions with the same raw headers for which the Analyzer Gateway
  call has the same outcome (both succeed or both fail) get the same status, whatever
  their reporter, title, body and urls, the time, and the state of the table.
\<close>

theorem status_depends_on_headers_and_gateway:
  "headers t1 = headers t2 \<Longrightarrow>
   snd (try_result (an1 (headers t1))) = snd (try_result (an2 (headers t2))) \<Longrightarrow>
   status (snd (create_ticket now1 an1 t1 w1)) = status (snd (create_ticket now2 an2 t2 w2))"
  by (simp add: create_ticket_eq final_status_def try_result_eq)

theorem status_depends_on_headers_and_gateway_witness:
  "status (snd (create_ticket 0 (\<lambda>h. Raised (str ''timed out'')) (sample_ticket triple_pass_headers)
       empty_world))
   = status (snd (create_ticket 7 (\<lambda>h. Returned (Response (Some (str ''500 Server Error'')) (str ''oops-page'')))
       \<lparr>reporter = str ''bob@example.org'', title = str ''Other'', body = str ''Other body'', urls = None,
        headers = triple_pass_headers\<rparr>
       (fst (create_ticket 0 (\<lambda>h. Raised (str ''timed out'')) (sample_ticket triple_pass_headers)
          empty_world))))"
  using status_depends_on_headers_and_gateway [of "sample_ticket triple_pass_headers"
      "\<lparr>reporter = str ''bob@example.org'', title = str ''Other'', body = str ''Other body'', urls = None,
        headers = triple_pass_headers\<rparr>"
      "\<lambda>h. Raised (str ''timed out'')"
      "\<lambda>h. Returned (Response (Some (str ''500 Server Error'')) (str ''oops-page''))"
      0 empty_world 7
      "fst (create_ticket 0 (\<lambda>h. Raised (str ''timed out'')) (sample_ticket triple_pass_headers)
          empty_world)"]
  by (simp add: sample_ticket_def try_result_def)

lemma list_tickets_set:
  "set (list_tickets w) =
     (\<lambda>r. \<lparr>sum_id = col_id r, sum_ts = col_ts r, sum_reporter = col_reporter r,
                sum_title = col_title r, sum_body = col_body r,
                sum_urls = urls_of_column (col_urls r),
                sum_analyzer_status = col_analyzer_status r\<rparr>) ` set (rows w)"
  by (simp add: list_tickets_def)

text \<open>
  Claim C10. For a submitted list of urls, each of them non-empty and without a comma,
  Get-by-id and List return the list unchanged for the new ticket; this includes the
  empty list.
\<close>

theorem urls_round_trip:
  assumes "urls t = Some us" and "\<forall>u \<in> set us. u \<noteq> [] \<and> Latin CHR '','' \<notin> set u"
  shows "(\<exists>d. get_ticket (ticket_id (snd (create_ticket now an t w))) (fst (create_ticket now an t w))
             = Inr d \<and> det_urls d = us)
       \<and> (\<exists>s \<in> set (list_tickets (fst (create_ticket now an t w))).
             sum_id s = ticket_id (snd (create_ticket now an t w)) \<and> sum_urls s = us)
       \<and> (\<forall>s \<in> set (list_tickets (fst (create_ticket now an t w))).
             sum_id s = ticket_id (snd (create_ticket now an t w)) \<longrightarrow> sum_urls s = us)"
proof -
  let ?r = "(queued_row now t w)
                 \<lparr>col_analyzer_status := final_status an t,
                  col_analyzer_result :=
                    Some (merged_result (an (headers t)) (auth_verdict_from_headers (headers t)))\<rparr>"
  have id: "col_id ?r = next_rowid w" by (simp add: queued_row_def)
  have u: "urls_of_column (col_urls ?r) = us"
    using assms urls_column_round_trip [of us] by (simp add: queued_row_def)
  have tid: "ticket_id (snd (create_ticket now an t w)) = next_rowid w"
    by (simp add: create_ticket_eq)
  have rs: "rows (fst (create_ticket now an t w)) = rows w @ [?r]"
    by (simp add: create_ticket_eq)
  have f: "fetchone (next_rowid w) (fst (create_ticket now an t w)) = Some ?r"
    using fetch_new_row [OF id] by (simp add: create_ticket_eq)
  have a: "\<exists>d. get_ticket (ticket_id (snd (create_ticket now an t w))) (fst (create_ticket now an t w))
             = Inr d \<and> det_urls d = us"
    unfolding tid get_ticket_def f using u by simp
  have old: "col_id r \<noteq> next_rowid w" if "r \<in> set (rows w)" for r
    using rowid_fresh [OF that] by simp
  have b: "\<exists>s \<in> set (list_tickets (fst (create_ticket now an t w))).
             sum_id s = ticket_id (snd (create_ticket now an t w)) \<and> sum_urls s = us"
    unfolding tid list_tickets_set rs using u id by simp
  have c: "\<forall>s \<in> set (list_tickets (fst (create_ticket now an t w))).
             sum_id s = ticket_id (snd (create_ticket now an t w)) \<longrightarrow> sum_urls s = us"
    unfolding tid list_tickets_set rs using u id old by auto
  from a b c show ?thesis by blast
qed

theorem urls_round_trip_witness:
  "map_sum (\<lambda>e. e) det_urls
     (get_ticket 1 (fst (create_ticket 0 (\<lambda>h. Raised (str ''timed out''))
        (sample_ticket triple_pass_headers) empty_world)))
   = Inr [str ''http://a.example/x'', str ''http://b.example/y'']
   \<and> map sum_urls (list_tickets (fst (create_ticket 0 (\<lambda>h. Raised (str ''timed out''))
        (sample_ticket triple_pass_headers) empty_world)))
     = [[str ''http://a.example/x'', str ''http://b.example/y'']]"
proof -
  let ?us = "[str ''http://a.example/x'', str ''http://b.example/y'']"
  let ?c = "create_ticket 0 (\<lambda>h. Raised (str ''timed out'')) (sample_ticket triple_pass_headers)
      empty_world"
  have u: "urls (sample_ticket triple_pass_headers) = Some ?us"
    by (simp add: sample_ticket_def)
  have ok: "\<forall>u \<in> set ?us. u \<noteq> [] \<and> Latin CHR '','' \<notin> set u"
    by (simp add: str_def)
  have i: "ticket_id (snd ?c) = 1"
    by (simp add: create_ticket_eq next_rowid_empty)
  have l: "length (list_tickets (fst ?c)) = 1"
    by (simp add: list_tickets_def create_ticket_eq empty_world_def)
  note h = urls_round_trip [OF u ok, of 0 "\<lambda>h. Raised (str ''timed out'')" empty_world]
  from h have a: "map_sum (\<lambda>e. e) det_urls (get_ticket 1 (fst ?c)) = Inr ?us"
    unfolding i by auto
  from h have "\<exists>s \<in> set (list_tickets (fst ?c)). sum_id s = 1 \<and> sum_urls s = ?us"
    unfolding i by blast
  with l have b: "map sum_urls (list_tickets (fst ?c)) = [?us]"
    by (cases "list_tickets (fst ?c)") auto
  from a b show ?thesis by (rule conjI)
qed

subsection \<open>Characters\<close>

lemma of_char_lower_latin:
  "(of_char (lower_latin a) :: nat) = (if is_upper_latin a then of_char a + 32 else of_char a)"
  by (auto simp: lower_latin_def is_upper_latin_def in_range_def)

lemma lower_latin_letter:
  "in_range 0x61 0x7A (lower_latin a) \<longleftrightarrow> in_range 0x41 0x5A a \<or> in_range 0x61 0x7A a"
  by (auto simp: in_range_def of_char_lower_latin is_upper_latin_def)

lemma char_eq_code: "a = b \<longleftrightarrow> (of_char a :: nat) = of_char b"
  by simp

lemma lower_latin_eq_sign: "lower_latin a = CHR ''='' \<longleftrightarrow> a = CHR ''=''"
  by (auto simp: char_eq_code [of _ "CHR ''=''"] of_char_lower_latin is_upper_latin_def in_range_def)

lemma space_not_letter: "is_space c \<Longrightarrow> \<not> letter_class c"
  by (cases c)
     (auto simp: letter_class_def is_ascii_letter_def is_space_latin_def in_range_def)

lemma lower_latin_literals:
  "lower_latin CHR ''='' = CHR ''=''" "map lower_latin ''spf'' = ''spf''"
  "map lower_latin ''dkim'' = ''dkim''" "map lower_latin ''dmarc'' = ''dmarc''"
  by code_simp+

lemma eq_sign_matches: "char_matches True CHR ''='' c \<longleftrightarrow> c = Latin CHR ''=''"
  by (cases c) (auto simp: char_matches_def lower_latin_literals lower_latin_eq_sign)

lemma space_not_eq_sign: "is_space c \<Longrightarrow> c \<noteq> Latin CHR ''=''"
  by (auto simp: is_space_latin_def in_range_def)


lemma key_letter_is_word:
  assumes "ignorecase_key c = Some d" "in_range 0x61 0x7A d"
  shows "is_word c"
proof (cases c)
  case (Latin a)
  with assms have "in_range 0x41 0x5A a \<or> in_range 0x61 0x7A a"
    using lower_latin_letter [of a] by auto
  with Latin show ?thesis by (auto simp: is_word_latin_def)
qed (use assms in auto)

subsection \<open>The matcher on the parts of the pattern\<close>

lemma prev_after_last: "m \<noteq> [] \<Longrightarrow> prev_after p m = Some (last m)"
  by (induction m arbitrary: p) auto

lemma lit_match_iff:
  "lit_match True l p s = Some (p', s') \<longleftrightarrow>
     (\<exists>m. s = m @ s' \<and> matches_literal l m \<and> p' = prev_after p m)"
proof (induction l arbitrary: p s)
  case Nil
  then show ?case by (auto simp: matches_literal_def)
next
  case (Cons a l)
  show ?case
  proof (cases s)
    case Nil
    then show ?thesis by (auto simp: matches_literal_def)
  next
    case (Cons c cs)
    show ?thesis
    proof
      assume "lit_match True (a # l) p s = Some (p', s')"
      with Cons have cm: "char_matches True a c" and r: "lit_match True l (Some c) cs = Some (p', s')"
        by (auto split: if_splits)
      from r Cons.IH [of "Some c" cs] obtain m where
        "cs = m @ s'" "matches_literal l m" "p' = prev_after (Some c) m"
        by blast
      with cm Cons show "\<exists>m. s = m @ s' \<and> matches_literal (a # l) m \<and> p' = prev_after p m"
        by (intro exI [of _ "c # m"]) (simp add: matches_literal_def)
    next
      assume "\<exists>m. s = m @ s' \<and> matches_literal (a # l) m \<and> p' = prev_after p m"
      then obtain m where m: "s = m @ s'" "matches_literal (a # l) m" "p' = prev_after p m"
        by blast
      then obtain d ds where mm: "m = d # ds" by (cases m) (auto simp: matches_literal_def)
      with m Cons have "d = c" "cs = ds @ s'" "matches_literal l ds" "char_matches True a c"
          "p' = prev_after (Some c) ds"
        by (auto simp: matches_literal_def)
      with Cons.IH [of "Some c" cs] have "lit_match True l (Some c) cs = Some (p', s')" by blast
      with \<open>char_matches True a c\<close> Cons show "lit_match True (a # l) p s = Some (p', s')"
        by simp
    qed
  qed
qed

lemma star_loop_fail_on_class:
  assumes "\<And>p c cs. in_class ic cl c \<Longrightarrow> k (p, c # cs, g) = None"
  shows "star_loop ic cl k p g s
    = k (prev_after p (takeWhile (in_class ic cl) s), dropWhile (in_class ic cl) s, g)"
proof (induction s arbitrary: p)
  case Nil
  then show ?case by simp
next
  case (Cons c cs)
  show ?case
  proof (cases "in_class ic cl c")
    case True
    have "star_loop ic cl k p g (c # cs) = star_loop ic cl k (Some c) g cs"
      using True assms [of c p cs] by (simp split: option.splits)
    then show ?thesis using True Cons.IH [of "Some c"] by simp
  next
    case False
    then show ?thesis by simp
  qed
qed

lemma star_loop_total_continuation:
  assumes "\<And>st. k st \<noteq> None"
  shows "star_loop ic cl k p g s
    = k (prev_after p (takeWhile (in_class ic cl) s), dropWhile (in_class ic cl) s, g)"
proof (induction s arbitrary: p)
  case Nil
  then show ?case by simp
next
  case (Cons c cs)
  show ?case
  proof (cases "in_class ic cl c")
    case True
    have "star_loop ic cl k (Some c) g cs \<noteq> None"
      using Cons.IH [of "Some c"] assms by simp
    then have "star_loop ic cl k p g (c # cs) = star_loop ic cl k (Some c) g cs"
      using True by (auto split: option.splits)
    then show ?thesis using True Cons.IH [of "Some c"] by simp
  next
    case False
    then show ?thesis by simp
  qed
qed

lemma take_length_diff_dropWhile:
  "take (length xs - length (dropWhile P xs)) xs = takeWhile P xs"
proof -
  have "length xs = length (takeWhile P xs) + length (dropWhile P xs)"
    by (metis length_append takeWhile_dropWhile_id)
  then have "length xs - length (dropWhile P xs) = length (takeWhile P xs)" by simp
  then show ?thesis by (simp add: takeWhile_eq_take [symmetric])
qed

lemma in_class_simps:
  "in_class True Letters = letter_class" "in_class True Whitespace = is_space"
  by (simp_all add: fun_eq_iff letter_class_def)

lemma in_class_Letters: "in_class True Letters c = letter_class c"
  by (simp add: letter_class_def)

lemma group2_direct:
  "rmatch True (Group 2 (Plus Letters)) (p, s, g) Some = word_direct (p, s, g)"
proof (cases s)
  case Nil
  then show ?thesis by (simp add: word_direct_def)
next
  case (Cons c cs)
  let ?k = "\<lambda>(p', s', g'). Some (p', s', (2, take (length s - length s') s) # g')"
  have tot: "\<And>st. ?k st \<noteq> None" by (simp add: case_prod_beta)
  show ?thesis
  proof (cases "letter_class c")
    case False
    with Cons show ?thesis
      by (simp add: word_direct_def in_class_Letters del: in_class.simps)
  next
    case True
    have "rmatch True (Group 2 (Plus Letters)) (p, s, g) Some
        = star_loop True Letters ?k (Some c) g cs"
      using Cons True by (simp add: in_class_Letters del: in_class.simps)
    also have "\<dots> = ?k (prev_after (Some c) (takeWhile letter_class cs),
        dropWhile letter_class cs, g)"
      using star_loop_total_continuation [of ?k True Letters "Some c" g cs, OF tot]
      by (simp add: in_class_simps)
    also have "\<dots> = word_direct (p, s, g)"
      using Cons True take_length_diff_dropWhile [of s letter_class]
      by (simp add: word_direct_def prev_after_last [of "c # takeWhile letter_class cs", simplified])
    finally show ?thesis .
  qed
qed

lemma word_direct_space: "is_space c \<Longrightarrow> word_direct (p, c # cs, g) = None"
  by (simp add: word_direct_def space_not_letter)

lemma tail_direct_eq: "rmatch True TAIL (p, s, g) Some = tail_direct (p, s, g)"
proof -
  let ?k2 = "\<lambda>st. rmatch True (Group 2 (Plus Letters)) st Some"
  let ?k1 = "\<lambda>st. rmatch True (Cat (Lit ''='') (Cat (Star Whitespace) (Group 2 (Plus Letters)))) st Some"
  have k2: "?k2 = word_direct"
  proof (rule ext)
    fix st :: mstate
    obtain a b c where "st = (a, b, c)" by (cases st) auto
    then show "?k2 st = word_direct st" by (simp only: group2_direct)
  qed
  have s2: "star_loop True Whitespace ?k2 p' g' s'
      = word_direct (prev_after p' (takeWhile is_space s'), dropWhile is_space s', g')" for p' g' s'
    unfolding k2
    using star_loop_fail_on_class [of True Whitespace word_direct g' p' s']
    by (simp add: in_class_simps word_direct_space)
  have k1: "?k1 (p', s', g') =
      (case s' of [] \<Rightarrow> None
       | c # cs \<Rightarrow> if c = Latin CHR ''='' then word_direct (Some c, dropWhile is_space cs, g') else None)"
    for p' s' g'
  proof (cases s')
    case Nil
    then show ?thesis by simp
  next
    case (Cons c cs)
    have wd: "word_direct (prev_after q u, x, y) = word_direct (q, x, y)" for q u x y
      by (simp add: word_direct_def)
    show ?thesis using Cons by (simp add: eq_sign_matches s2 wd)
  qed
  have f1: "\<And>p' c cs. in_class True Whitespace c \<Longrightarrow> ?k1 (p', c # cs, g) = None"
    unfolding k1 by (simp add: space_not_eq_sign)
  have "rmatch True TAIL (p, s, g) Some = star_loop True Whitespace ?k1 p g s"
    by (simp add: TAIL_def)
  also have "\<dots> = ?k1 (prev_after p (takeWhile is_space s), dropWhile is_space s, g)"
    using star_loop_fail_on_class [of True Whitespace ?k1 g p s, OF f1] by (simp add: in_class_simps)
  also have "\<dots> = tail_direct (p, s, g)"
    unfolding k1 by (simp add: tail_direct_def)
  finally show ?thesis .
qed

lemma takeWhile_run:
  "list_all P w \<Longrightarrow> (case rest of [] \<Rightarrow> True | c # _ \<Rightarrow> \<not> P c) \<Longrightarrow>
   takeWhile P (w @ rest) = w \<and> dropWhile P (w @ rest) = rest"
  by (cases rest) (auto simp: list_all_iff)

lemma dropWhile_head: "(case dropWhile P xs of [] \<Rightarrow> True | c # _ \<Rightarrow> \<not> P c)"
  by (induction xs) auto

lemma word_direct_iff:
  "word_direct (q, s4, g0) = Some (p', rest, g) \<longleftrightarrow>
     (\<exists>w. s4 = w @ rest \<and> w \<noteq> [] \<and> list_all letter_class w \<and> not_letter_next rest
          \<and> g = (2, w) # g0 \<and> p' = Some (last w))"
proof
  assume a: "word_direct (q, s4, g0) = Some (p', rest, g)"
  let ?w = "takeWhile letter_class s4"
  from a have "?w \<noteq> []" "rest = dropWhile letter_class s4" "g = (2, ?w) # g0"
      "p' = Some (last ?w)"
    by (auto simp: word_direct_def Let_def split: if_splits)
  moreover have "s4 = ?w @ dropWhile letter_class s4" by simp
  moreover have "list_all letter_class ?w"
    by (auto simp: list_all_iff dest: set_takeWhileD)
  moreover have "not_letter_next (dropWhile letter_class s4)"
    unfolding not_letter_next_def by (rule dropWhile_head)
  ultimately show "\<exists>w. s4 = w @ rest \<and> w \<noteq> [] \<and> list_all letter_class w
      \<and> not_letter_next rest \<and> g = (2, w) # g0 \<and> p' = Some (last w)"
    by blast
next
  assume "\<exists>w. s4 = w @ rest \<and> w \<noteq> [] \<and> list_all letter_class w \<and> not_letter_next rest
          \<and> g = (2, w) # g0 \<and> p' = Some (last w)"
  then obtain w where w: "s4 = w @ rest" "w \<noteq> []" "list_all letter_class w"
      "not_letter_next rest" "g = (2, w) # g0" "p' = Some (last w)" by blast
  from w(3,4) have "takeWhile letter_class (w @ rest) = w \<and>
      dropWhile letter_class (w @ rest) = rest"
    unfolding not_letter_next_def by (rule takeWhile_run)
  with w show "word_direct (q, s4, g0) = Some (p', rest, g)"
    by (simp add: word_direct_def)
qed

lemma spaces_then:
  "list_all is_space ws \<Longrightarrow> (case rest of [] \<Rightarrow> True | c # _ \<Rightarrow> \<not> is_space c) \<Longrightarrow>
   dropWhile is_space (ws @ rest) = rest"
  using takeWhile_run [of is_space ws rest] by simp

lemma str_eq_sign: "str ''='' = [Latin CHR ''='']"
  by (simp add: str_def)

lemma tail_direct_iff:
  "tail_direct (q, s1, g0) = Some (p', rest, g) \<longleftrightarrow>
     (\<exists>ws1 ws2 w. s1 = ws1 @ str ''='' @ ws2 @ w @ rest \<and> list_all is_space ws1
        \<and> list_all is_space ws2 \<and> w \<noteq> [] \<and> list_all letter_class w
        \<and> not_letter_next rest \<and> g = (2, w) # g0 \<and> p' = Some (last w))"
proof
  assume a: "tail_direct (q, s1, g0) = Some (p', rest, g)"
  let ?ws1 = "takeWhile is_space s1"
  from a obtain s3 where s3: "dropWhile is_space s1 = Latin CHR ''='' # s3"
      and wd: "word_direct (Some (Latin CHR ''=''), dropWhile is_space s3, g0) = Some (p', rest, g)"
    by (auto simp: tail_direct_def split: list.splits if_splits)
  let ?ws2 = "takeWhile is_space s3"
  from wd obtain w where w: "dropWhile is_space s3 = w @ rest" "w \<noteq> []"
      "list_all letter_class w" "not_letter_next rest" "g = (2, w) # g0" "p' = Some (last w)"
    unfolding word_direct_iff by blast
  have "s1 = ?ws1 @ dropWhile is_space s1" by simp
  also have "\<dots> = ?ws1 @ str ''='' @ s3" using s3 by (simp add: str_eq_sign)
  also have "s3 = ?ws2 @ dropWhile is_space s3" by simp
  finally have "s1 = ?ws1 @ str ''='' @ ?ws2 @ w @ rest" using w(1) by simp
  moreover have "list_all is_space ?ws1" "list_all is_space ?ws2"
    by (auto simp: list_all_iff dest: set_takeWhileD)
  ultimately show "\<exists>ws1 ws2 w. s1 = ws1 @ str ''='' @ ws2 @ w @ rest \<and> list_all is_space ws1
        \<and> list_all is_space ws2 \<and> w \<noteq> [] \<and> list_all letter_class w
        \<and> not_letter_next rest \<and> g = (2, w) # g0 \<and> p' = Some (last w)"
    using w by blast
next
  assume "\<exists>ws1 ws2 w. s1 = ws1 @ str ''='' @ ws2 @ w @ rest \<and> list_all is_space ws1
        \<and> list_all is_space ws2 \<and> w \<noteq> [] \<and> list_all letter_class w
        \<and> not_letter_next rest \<and> g = (2, w) # g0 \<and> p' = Some (last w)"
  then obtain ws1 ws2 w where d: "s1 = ws1 @ str ''='' @ ws2 @ w @ rest" "list_all is_space ws1"
      "list_all is_space ws2" "w \<noteq> []" "list_all letter_class w" "not_letter_next rest"
      "g = (2, w) # g0" "p' = Some (last w)" by blast
  have ne: "\<not> is_space (Latin CHR ''='')" using space_not_eq_sign by blast
  have 1: "dropWhile is_space s1 = Latin CHR ''='' # ws2 @ w @ rest"
    using spaces_then [of ws1 "Latin CHR ''='' # ws2 @ w @ rest"] d(1,2) ne
    by (simp add: str_eq_sign)
  from d(4,5) obtain c cs where c: "w = c # cs" "letter_class c" by (cases w) auto
  then have "\<not> is_space c" using space_not_letter by blast
  then have 2: "dropWhile is_space (ws2 @ w @ rest) = w @ rest"
    using spaces_then [of ws2 "w @ rest"] d(3) c by simp
  have "word_direct (Some (Latin CHR ''=''), w @ rest, g0) = Some (p', rest, g)"
    unfolding word_direct_iff using d by blast
  then show "tail_direct (q, s1, g0) = Some (p', rest, g)"
    by (simp add: tail_direct_def 1 2)
qed

lemma tail_continuation: "(\<lambda>st. rmatch True TAIL st Some) = tail_direct"
proof (rule ext)
  fix st :: mstate
  obtain a b c where "st = (a, b, c)" by (cases st) auto
  then show "rmatch True TAIL st Some = tail_direct st" by (simp only: tail_direct_eq)
qed

lemma result_re_direct:
  "rmatch (fst RESULT_RE) (snd RESULT_RE) (p, s, []) Some =
     (if word_before p \<noteq> word_after s then
        (case try_mech ''spf'' p s of
           Some r \<Rightarrow> Some r
         | None \<Rightarrow>
             (case try_mech ''dkim'' p s of
                Some r \<Rightarrow> Some r
              | None \<Rightarrow> try_mech ''dmarc'' p s))
      else None)"
proof -
  have re: "snd RESULT_RE =
      Cat Boundary (Cat (Group 1 (Alt (Lit ''spf'') (Alt (Lit ''dkim'') (Lit ''dmarc'')))) TAIL)"
    by (simp add: RESULT_RE_def TAIL_def)
  have fl: "fst RESULT_RE = True" by (simp add: RESULT_RE_def)
  show ?thesis
    unfolding re fl
    by (simp add: tail_continuation try_mech_def split: option.splits)
qed

lemma try_mech_iff:
  "try_mech l p s = Some (p', rest, g) \<longleftrightarrow>
     (\<exists>m ws1 ws2 w. s = m @ ws1 @ str ''='' @ ws2 @ w @ rest \<and> matches_literal l m
        \<and> list_all is_space ws1 \<and> list_all is_space ws2 \<and> w \<noteq> []
        \<and> list_all letter_class w \<and> not_letter_next rest
        \<and> g = [(2, w), (1, m)] \<and> p' = Some (last w))"
proof
  assume "try_mech l p s = Some (p', rest, g)"
  then obtain q s1 where lm: "lit_match True l p s = Some (q, s1)"
      and td: "tail_direct (q, s1, [(1, take (length s - length s1) s)]) = Some (p', rest, g)"
    by (auto simp: try_mech_def split: option.splits)
  from lm obtain m where m: "s = m @ s1" "matches_literal l m" unfolding lit_match_iff by blast
  then have tk: "take (length s - length s1) s = m" by simp
  from td obtain ws1 ws2 w where "s1 = ws1 @ str ''='' @ ws2 @ w @ rest" "list_all is_space ws1"
      "list_all is_space ws2" "w \<noteq> []" "list_all letter_class w" "not_letter_next rest"
      "g = [(2, w), (1, m)]" "p' = Some (last w)"
    unfolding tail_direct_iff tk by blast
  with m show "\<exists>m ws1 ws2 w. s = m @ ws1 @ str ''='' @ ws2 @ w @ rest \<and> matches_literal l m
        \<and> list_all is_space ws1 \<and> list_all is_space ws2 \<and> w \<noteq> []
        \<and> list_all letter_class w \<and> not_letter_next rest
        \<and> g = [(2, w), (1, m)] \<and> p' = Some (last w)"
    by auto
next
  assume "\<exists>m ws1 ws2 w. s = m @ ws1 @ str ''='' @ ws2 @ w @ rest \<and> matches_literal l m
        \<and> list_all is_space ws1 \<and> list_all is_space ws2 \<and> w \<noteq> []
        \<and> list_all letter_class w \<and> not_letter_next rest
        \<and> g = [(2, w), (1, m)] \<and> p' = Some (last w)"
  then obtain m ws1 ws2 w where d: "s = m @ ws1 @ str ''='' @ ws2 @ w @ rest"
      "matches_literal l m"
      "list_all is_space ws1" "list_all is_space ws2" "w \<noteq> []" "list_all letter_class w"
      "not_letter_next rest" "g = [(2, w), (1, m)]" "p' = Some (last w)" by blast
  let ?s1 = "ws1 @ str ''='' @ ws2 @ w @ rest"
  have lm: "lit_match True l p s = Some (prev_after p m, ?s1)"
    unfolding lit_match_iff using d(1,2) by auto
  have tk: "take (length s - length ?s1) s = m" using d(1) by simp
  have "tail_direct (prev_after p m, ?s1, [(1, m)]) = Some (p', rest, g)"
    unfolding tail_direct_iff using d by blast
  then show "try_mech l p s = Some (p', rest, g)"
    using lm tk by (simp add: try_mech_def)
qed

subsection \<open>A match of the pattern, characterised\<close>

lemma matches_literal_key:
  "matches_literal l m \<longleftrightarrow> map ignorecase_key m = map (\<lambda>a. Some (lower_latin a)) l"
proof (induction l arbitrary: m)
  case Nil
  then show ?case by (simp add: matches_literal_def)
next
  case (Cons a l)
  then show ?case
    by (cases m) (auto simp: matches_literal_def char_matches_def)
qed

lemma mechanism_keys:
  assumes "l \<in> {''spf'', ''dkim'', ''dmarc''}"
  shows "map (\<lambda>a. Some (lower_latin a)) l = map Some l"
proof -
  have "map (\<lambda>a. Some (lower_latin a)) l = map Some (map lower_latin l)" by simp
  also have "map lower_latin l = l" using assms lower_latin_literals by auto
  finally show ?thesis .
qed

lemma mechanism_head:
  assumes "matches_literal l m" "l \<in> {''spf'', ''dkim'', ''dmarc''}"
  shows "\<exists>c cs. m = c # cs \<and> is_word c"
proof -
  from assms have k: "map ignorecase_key m = map Some l"
    by (simp only: matches_literal_key mechanism_keys)
  with assms(2) obtain c cs where m: "m = c # cs" by (cases m) auto
  from k m assms(2) have "ignorecase_key c = Some CHR ''s'' \<or> ignorecase_key c = Some CHR ''d''"
    by auto
  moreover have "in_range 0x61 0x7A CHR ''s''" "in_range 0x61 0x7A CHR ''d''"
    by (simp_all add: in_range_def)
  ultimately have "is_word c" using key_letter_is_word by blast
  with m show ?thesis by blast
qed

lemma mechanisms_no_prefix:
  assumes "l \<in> {''spf'', ''dkim'', ''dmarc''}" "l' \<in> {''spf'', ''dkim'', ''dmarc''}"
      "prefix (map Some l) (map Some l')"
  shows "l = l'"
proof -
  have "\<not> prefix (map Some ''spf'') (map Some ''dkim'')"
    "\<not> prefix (map Some ''spf'') (map Some ''dmarc'')"
    "\<not> prefix (map Some ''dkim'') (map Some ''spf'')"
    "\<not> prefix (map Some ''dkim'') (map Some ''dmarc'')"
    "\<not> prefix (map Some ''dmarc'') (map Some ''spf'')"
    "\<not> prefix (map Some ''dmarc'') (map Some ''dkim'')"
    by simp_all
  with assms show ?thesis by blast
qed

lemma try_mech_exclusive:
  assumes "try_mech l p s = Some r" "l \<in> {''spf'', ''dkim'', ''dmarc''}"
      "l' \<in> {''spf'', ''dkim'', ''dmarc''}" "l' \<noteq> l"
  shows "try_mech l' p s = None"
proof (rule ccontr)
  assume "try_mech l' p s \<noteq> None"
  then obtain r' where r': "try_mech l' p s = Some r'" by blast
  obtain p1 rest1 g1 where r1: "r = (p1, rest1, g1)" by (cases r) auto
  obtain p2 rest2 g2 where r2: "r' = (p2, rest2, g2)" by (cases r') auto
  from assms(1) obtain m x where m: "s = m @ x" "matches_literal l m"
    unfolding r1 try_mech_iff by blast
  from r' obtain m' x' where m': "s = m' @ x'" "matches_literal l' m'"
    unfolding r2 try_mech_iff by blast
  from m(2) assms(2) have k: "map ignorecase_key m = map Some l"
    by (simp only: matches_literal_key mechanism_keys)
  from m'(2) assms(3) have k': "map ignorecase_key m' = map Some l'"
    by (simp only: matches_literal_key mechanism_keys)
  have "map ignorecase_key s = map Some l @ map ignorecase_key x" using m(1) k by simp
  then have 1: "prefix (map Some l) (map ignorecase_key s)" by simp
  have "map ignorecase_key s = map Some l' @ map ignorecase_key x'" using m'(1) k' by simp
  then have 2: "prefix (map Some l') (map ignorecase_key s)" by simp
  from 1 2 have "prefix (map Some l) (map Some l') \<or> prefix (map Some l') (map Some l)"
    by (rule prefix_same_cases)
  then show False
    using mechanisms_no_prefix [OF assms(2,3)] mechanisms_no_prefix [OF assms(3,2)] assms(4)
    by blast
qed

lemma result_re_match_iff:
  "rmatch (fst RESULT_RE) (snd RESULT_RE) (p, s, []) Some = Some (p', rest, g) \<longleftrightarrow>
     (\<exists>m w. pattern_at p s m w rest \<and> g = [(2, w), (1, m)] \<and> p' = Some (last w))"
proof
  assume a: "rmatch (fst RESULT_RE) (snd RESULT_RE) (p, s, []) Some = Some (p', rest, g)"
  then have b: "word_before p \<noteq> word_after s"
    and "\<exists>l \<in> {''spf'', ''dkim'', ''dmarc''}. try_mech l p s = Some (p', rest, g)"
    unfolding result_re_direct by (auto split: if_splits option.splits)
  then obtain l where l: "l \<in> {''spf'', ''dkim'', ''dmarc''}" "try_mech l p s = Some (p', rest, g)"
    by blast
  from l(2) obtain m ws1 ws2 w where d: "s = m @ ws1 @ str ''='' @ ws2 @ w @ rest"
        "matches_literal l m"
        "list_all is_space ws1" "list_all is_space ws2" "w \<noteq> []"
        "list_all letter_class w" "not_letter_next rest"
        "g = [(2, w), (1, m)]" "p' = Some (last w)"
    unfolding try_mech_iff by blast
  from mechanism_head [OF d(2) l(1)] obtain c cs where "m = c # cs" "is_word c"
    by auto
  with d(1) have "word_after s" by (simp add: word_after_def)
  with b have "\<not> word_before p" by simp
  with d l(1) have "pattern_at p s m w rest" unfolding pattern_at_def by blast
  with d show "\<exists>m w. pattern_at p s m w rest \<and> g = [(2, w), (1, m)] \<and> p' = Some (last w)"
    by blast
next
  assume "\<exists>m w. pattern_at p s m w rest \<and> g = [(2, w), (1, m)] \<and> p' = Some (last w)"
  then obtain m w where pa: "pattern_at p s m w rest" and g: "g = [(2, w), (1, m)]"
      "p' = Some (last w)" by blast
  from pa obtain l ws1 ws2 where d: "\<not> word_before p" "l \<in> {''spf'', ''dkim'', ''dmarc''}"
      "matches_literal l m"
      "s = m @ ws1 @ str ''='' @ ws2 @ w @ rest" "list_all is_space ws1" "list_all is_space ws2"
      "w \<noteq> []" "list_all letter_class w" "not_letter_next rest"
    unfolding pattern_at_def by blast
  from mechanism_head [OF d(3,2)] obtain c cs where "m = c # cs" "is_word c" by auto
  with d(4) have "word_after s" by (simp add: word_after_def)
  with d(1) have b: "word_before p \<noteq> word_after s" by simp
  have t: "try_mech l p s = Some (p', rest, g)"
    unfolding try_mech_iff using d g by blast
  note ex = try_mech_exclusive [OF t d(2)]
  from d(2) consider "l = ''spf''" | "l = ''dkim''" | "l = ''dmarc''" by auto
  then show "rmatch (fst RESULT_RE) (snd RESULT_RE) (p, s, []) Some = Some (p', rest, g)"
  proof cases
    case 1
    with t b show ?thesis unfolding result_re_direct by simp
  next
    case 2
    with ex [of "''spf''"] have "try_mech ''spf'' p s = None" by simp
    with 2 t b show ?thesis unfolding result_re_direct by simp
  next
    case 3
    with ex [of "''spf''"] ex [of "''dkim''"]
    have "try_mech ''spf'' p s = None" "try_mech ''dkim'' p s = None" by simp_all
    with 3 t b show ?thesis unfolding result_re_direct by simp
  qed
qed

subsection \<open>The scan of a line\<close>



lemma result_re_groups:
  "rmatch (fst RESULT_RE) (snd RESULT_RE) (p, s, []) Some = Some (p', rest, g)
     \<Longrightarrow> \<exists>m w. group g 1 = Some m \<and> group g 2 = Some w"
  unfolding result_re_match_iff by (auto simp: group_def)







subsection \<open>Lines without the extra letters\<close>

lemma plain_line_append [simp]: "plain_line (xs @ ys) \<longleftrightarrow> plain_line xs \<and> plain_line ys"
  by (simp add: plain_line_def)

lemma plain_line_Cons [simp]:
  "plain_line (c # cs) \<longleftrightarrow> \<not> ignorecase_extra c \<and> plain_line cs"
  by (simp add: plain_line_def)












subsection \<open>The verdict of a header text\<close>

lemma resolve_overall_pass:
  "overall (resolve_verdict found) = str ''pass'' \<longleftrightarrow>
     found (str ''spf'') = Some (str ''pass'') \<and> found (str ''dkim'') = Some (str ''pass'')
     \<and> found (str ''dmarc'') = Some (str ''pass'')"
  by (cases "found (str ''spf'')"; cases "found (str ''dkim'')"; cases "found (str ''dmarc'')")
     (auto simp: resolve_verdict_def derive_overall_def GOOD_VALUE_def Let_def)

text \<open>
  Claim C5, as amended. The overall verdict is \<^verbatim>\<open>pass\<close> exactly for the header
  texts in which, on the lines that start with \<^verbatim>\<open>authentication-results\<close> in any
  casing, scanned in order, the first recorded result of each of spf, dkim and dmarc is
  the word \<^verbatim>\<open>pass\<close> (in any casing, as results are lowercased); the order of the
  three tokens does not matter.
\<close>

theorem triple_pass_iff:
  "overall (auth_verdict_from_headers raw) = str ''pass'' \<longleftrightarrow>
     (\<forall>k \<in> {str ''spf'', str ''dkim'', str ''dmarc''}.
        map_of (signals (collect_lines raw)) k = Some (str ''pass''))"
  by (simp add: auth_verdict_from_headers_def resolve_overall_pass collect_found_map_of)

theorem triple_pass_iff_witness:
  "overall (auth_verdict_from_headers
     (str ''Received: spf=fail'' @ [Latin (CHR 0x0A)]
      @ str ''AUTHENTICATION-RESULTS: mx; DMARC = Pass (p=none); dkim=PASS header.d=x; spf  =pass''))
   = str ''pass''"
  (is "overall (auth_verdict_from_headers ?X) = _")
proof -
  have "signals (collect_lines ?X)
      = [(str ''dmarc'', str ''pass''), (str ''dkim'', str ''pass''), (str ''spf'', str ''pass'')]"
    by code_simp
  then have "\<forall>k \<in> {str ''spf'', str ''dkim'', str ''dmarc''}.
      map_of (signals (collect_lines ?X)) k = Some (str ''pass'')"
    by simp
  then show ?thesis using triple_pass_iff [of ?X] by blast
qed

theorem tokens_present_counterexample:
  "spec_occurrences (str ''X-Note: spf=pass dkim=pass dmarc=pass'')
     = [(str ''spf'', str ''pass''), (str ''dkim'', str ''pass''), (str ''dmarc'', str ''pass'')]
   \<and> overall (auth_verdict_from_headers (str ''X-Note: spf=pass dkim=pass dmarc=pass''))
       = str ''unknown''
   \<and> spec_occurrences (str ''Authentication-Results: spf=fail; spf=pass; dkim=pass; dmarc=pass'')
     = [(str ''spf'', str ''fail''), (str ''spf'', str ''pass''), (str ''dkim'', str ''pass''),
        (str ''dmarc'', str ''pass'')]
   \<and> overall (auth_verdict_from_headers
         (str ''Authentication-Results: spf=fail; spf=pass; dkim=pass; dmarc=pass'')) = str ''fail''"
  by code_simp

end
